theory Spec2Isabelle
  imports Complex_Main "HOL-Library.Log_Nat" "HOL-Library.Code_Target_Numeral"
begin

section \<open>The media sorter: data model\<close>

text \<open>
  The development follows \<^verbatim>\<open>media_sorter.py\<close>. A \<^verbatim>\<open>pathlib.Path\<close> is the list of
  its components; the path \<^verbatim>\<open>.\<close> is the empty list, whose \<^verbatim>\<open>name\<close> is the empty
  string and whose \<^verbatim>\<open>parent\<close> is itself; the anchor of an absolute path is not
  modelled. The \<^verbatim>\<open>collections.Counter\<close> kept in \<^verbatim>\<open>self.stats\<close> is an association
  list in insertion order; counts and byte totals only ever grow from zero, so they are
  natural numbers.
\<close>

type_synonym path = "string list"

type_synonym fraction = "int \<times> int"

record media_sorter =
  target_path :: path
  limiter :: int
  move_files :: bool
  output_path :: path
  stats :: "(string \<times> nat) list"
  total_size_bytes :: nat

text \<open>
  The exceptions that can reach the sorter, each with its message. In Python 3
  \<^verbatim>\<open>IOError\<close> is \<^verbatim>\<open>OSError\<close>, which also covers the failures of \<^verbatim>\<open>mkdir\<close>,
  \<^verbatim>\<open>stat\<close> and \<^verbatim>\<open>shutil\<close>. \<open>OtherError\<close> is any other subclass of \<^verbatim>\<open>Exception\<close>,
  such as the errors the metadata library raises.
\<close>

datatype exn =
    ValueError string
  | UnidentifiedImageError string
  | IOError string
  | ZeroDivisionError string
  | OverflowError string
  | OtherError string

fun message :: "exn \<Rightarrow> string" where
  "message (ValueError m) = m"
| "message (UnidentifiedImageError m) = m"
| "message (IOError m) = m"
| "message (ZeroDivisionError m) = m"
| "message (OverflowError m) = m"
| "message (OtherError m) = m"

section \<open>Binary floating point\<close>

text \<open>
  A Python \<^verbatim>\<open>float\<close> is an IEEE double. The model takes a float as the real number
  it denotes and rounds the result of every operation to 53 significant bits, to
  nearest with ties to the even significand. \<open>binade x\<close> is the exponent \<open>e\<close> with
  \<open>2 ^ e \<le> \<bar>x\<bar> < 2 ^ (e + 1)\<close>, and \<open>round_to p\<close> rounds to a multiple of \<open>2 ^ p\<close>.
\<close>

definition round_even :: "real \<Rightarrow> int" where
  "round_even x =
     (let f = \<lfloor>x\<rfloor>; d = x - of_int f
      in if d < 1 / 2 then f else if 1 / 2 < d then f + 1 else if even f then f else f + 1)"

definition binade :: "real \<Rightarrow> int" where
  "binade x =
     (if 1 \<le> \<bar>x\<bar> then bitlen \<lfloor>\<bar>x\<bar>\<rfloor> - 1 else - bitlen (\<lceil>1 / \<bar>x\<bar>\<rceil> - 1))"

definition round_to :: "int \<Rightarrow> real \<Rightarrow> real" where
  "round_to p x = of_int (round_even (x / 2 powi p)) * 2 powi p"

definition double_round :: "real \<Rightarrow> real" where
  "double_round x = (if x = 0 then 0 else round_to (binade x - 52) x)"

text \<open>The reals that are floats: rounding leaves them as they are.\<close>

definition is_double :: "real \<Rightarrow> bool" where
  "is_double x \<longleftrightarrow> double_round x = x"

text \<open>
  In \<^verbatim>\<open>ratio_val * mediant[1]\<close> the integer is converted to a float and the product
  of the two floats is rounded. Overflow is not modelled for these two operations: an
  integer of \<open>2 ^ 1024\<close> or more would raise \<^verbatim>\<open>OverflowError\<close> in the conversion and
  a product of that size would be infinite. Underflow needs no model here: the product
  of a float and a positive integer that falls below \<open>2 ^ - 1022\<close> is exact.
\<close>

definition float_of_int :: "int \<Rightarrow> real" where
  "float_of_int n = double_round (of_int n)"

definition float_mul :: "real \<Rightarrow> real \<Rightarrow> real" where
  "float_mul x y = double_round (x * y)"

text \<open>
  The true division \<^verbatim>\<open>a / b\<close> of two Python integers gives the correctly rounded
  quotient: it raises \<^verbatim>\<open>ZeroDivisionError\<close> for a zero divisor and
  \<^verbatim>\<open>OverflowError\<close> when the rounded quotient does not fit a double, and below
  \<open>2 ^ - 1022\<close> it rounds to a multiple of \<open>2 ^ - 1074\<close>.
\<close>

definition int_truediv :: "int \<Rightarrow> int \<Rightarrow> exn + real" where
  "int_truediv a b =
     (if b = 0 then Inl (ZeroDivisionError ''division by zero'')
      else
        (let q = real_of_int a / real_of_int b
         in if q = 0 then Inr 0
            else
              (let v = round_to (max (binade q) (- 1022) - 52) q
               in if 2 ^ 1024 \<le> \<bar>v\<bar>
                  then Inl (OverflowError ''integer division result too large for a float'')
                  else Inr v)))"


section \<open>The ratio approximation\<close>

text \<open>
  \<^verbatim>\<open>_apply_limiter\<close> receives the float \<^verbatim>\<open>width / height\<close>. The bounds are pairs of
  Python integers, and a float is compared with an integer exactly. The loop
  \<^verbatim>\<open>while True\<close> has no syntactic bound, so it is a partial function into
  \<open>option\<close>: \<open>None\<close> stands for a run that never returns.
\<close>

partial_function (option) farey_loop ::
    "int \<Rightarrow> real \<Rightarrow> fraction \<Rightarrow> fraction \<Rightarrow> fraction option" where
  "farey_loop lmt ratio_val lower upper =
     (let mediant = (fst lower + fst upper, snd lower + snd upper) in
      if float_mul ratio_val (float_of_int (snd mediant)) > real_of_int (fst mediant) then
        (if lmt < snd mediant then Some upper
         else farey_loop lmt ratio_val mediant upper)
      else if float_mul ratio_val (float_of_int (snd mediant)) = real_of_int (fst mediant) then
        Some mediant
      else
        (if lmt < snd mediant then Some lower
         else farey_loop lmt ratio_val lower mediant))"

declare farey_loop.simps [code]

definition apply_limiter :: "'a media_sorter_scheme \<Rightarrow> real \<Rightarrow> fraction option" where
  "apply_limiter self ratio_val = farey_loop (limiter self) ratio_val (0, 1) (1, 0)"

text \<open>
  The quantity that decreases along the loop. While the upper bound is still the
  sentinel \<open>(1, 0)\<close> the numerator of the lower bound climbs towards the product of the
  ratio and the fixed denominator; afterwards the denominator of the mediant climbs
  towards the limiter.
\<close>

definition farey_measure :: "int \<Rightarrow> real \<Rightarrow> fraction \<Rightarrow> fraction \<Rightarrow> nat" where
  "farey_measure lmt r lower upper =
     (if snd upper = 0
      then nat (\<lceil>float_mul r (float_of_int (snd lower))\<rceil> - fst lower) + nat lmt + 2
      else nat (lmt + 1 - (snd lower + snd upper)))"

text \<open>A sorter object as the constructor leaves it, for concrete evaluations.\<close>

definition sorter_with_limiter :: "int \<Rightarrow> media_sorter" where
  "sorter_with_limiter n =
     \<lparr>target_path = [''media''], limiter = n, move_files = False,
      output_path = [], stats = [], total_size_bytes = 0\<rparr>"

text \<open>
  The invariant of the search in exact arithmetic, for a limiter of at least one and a
  ratio that is not negative: the bounds are neighbours in the Stern--Brocot tree (their
  determinant is one), both denominators respect the limiter, and the ratio lies between
  them. The comparisons are cross-multiplied, so the sentinel \<open>(1, 0)\<close> needs no special
  case.
\<close>

definition farey_inv :: "int \<Rightarrow> real \<Rightarrow> fraction \<Rightarrow> fraction \<Rightarrow> bool" where
  "farey_inv lmt r lower upper \<longleftrightarrow>
     0 \<le> fst lower \<and> 1 \<le> snd lower \<and> 1 \<le> fst upper \<and> 0 \<le> snd upper \<and>
     fst upper * snd lower - fst lower * snd upper = 1 \<and>
     snd lower \<le> lmt \<and> snd upper \<le> lmt \<and>
     real_of_int (fst lower) \<le> r * real_of_int (snd lower) \<and>
     r * real_of_int (snd upper) < real_of_int (fst upper)"


text \<open>
  The invariant of the search for the quotient of \<open>x0\<close> by \<open>y0\<close>: as above, with the
  exact quotient between the bounds, either of which it may equal.
\<close>

definition exact_inv :: "int \<Rightarrow> int \<Rightarrow> int \<Rightarrow> fraction \<Rightarrow> fraction \<Rightarrow> bool" where
  "exact_inv lmt x0 y0 lower upper \<longleftrightarrow>
     0 \<le> fst lower \<and> 1 \<le> snd lower \<and> 1 \<le> fst upper \<and> 0 \<le> snd upper \<and>
     fst upper * snd lower - fst lower * snd upper = 1 \<and>
     snd lower \<le> lmt \<and> snd upper \<le> lmt \<and>
     fst lower * y0 \<le> x0 * snd lower \<and> x0 * snd upper \<le> fst upper * y0"


section \<open>Strings and paths\<close>

text \<open>
  Python renders an integer inside an f-string in decimal, with a minus sign when it is
  negative.
\<close>

definition digit_char :: "nat \<Rightarrow> char" where
  "digit_char n = ''0123456789'' ! (n mod 10)"

fun str_nat :: "nat \<Rightarrow> string" where
  "str_nat n = (if n < 10 then [digit_char n] else str_nat (n div 10) @ [digit_char n])"

declare str_nat.simps [simp del]

definition str_int :: "int \<Rightarrow> string" where
  "str_int i = (if i < 0 then CHR ''-'' # str_nat (nat (- i)) else str_nat (nat i))"

text \<open>\<^verbatim>\<open>str.lower\<close>, on the ASCII letters.\<close>

definition lower_char :: "char \<Rightarrow> char" where
  "lower_char c =
     (case map_of (zip ''ABCDEFGHIJKLMNOPQRSTUVWXYZ'' ''abcdefghijklmnopqrstuvwxyz'') c of
        Some d \<Rightarrow> d
      | None \<Rightarrow> c)"

definition str_lower :: "string \<Rightarrow> string" where
  "str_lower s = map lower_char s"

definition path_name :: "path \<Rightarrow> string" where
  "path_name p = (if p = [] then [] else last p)"

definition path_parent :: "path \<Rightarrow> path" where
  "path_parent p = butlast p"

definition path_join :: "path \<Rightarrow> string \<Rightarrow> path" where
  "path_join p name = p @ [name]"

fun join_components :: "string list \<Rightarrow> string" where
  "join_components [] = []"
| "join_components [c] = c"
| "join_components (c # cs) = c @ ''/'' @ join_components cs"

definition path_str :: "path \<Rightarrow> string" where
  "path_str p = (if p = [] then ''.'' else join_components p)"

text \<open>
  \<^verbatim>\<open>Path.suffix\<close>: the final component from its last dot on, provided that dot is
  neither the first nor the last character; otherwise the empty string.
\<close>

definition path_suffix :: "path \<Rightarrow> string" where
  "path_suffix p =
     (let name = path_name p;
          tail = takeWhile (\<lambda>c. c \<noteq> CHR ''.'') (rev name)
      in if length tail = length name then []
         else (let i = length name - 1 - length tail
               in if 0 < i \<and> i < length name - 1 then drop i name else []))"

section \<open>The output path allocator\<close>

text \<open>
  \<^verbatim>\<open>candidate.exists()\<close> asks the file system; the model passes the set of paths that
  exist at the time of the call. The counter loop has no bound of its own, so it is a
  partial function as well.
\<close>

definition base_name :: "'a media_sorter_scheme \<Rightarrow> string" where
  "base_name self = path_name (target_path self) @ ''_sorted_L'' @ str_int (limiter self)"

definition numbered_candidate :: "'a media_sorter_scheme \<Rightarrow> nat \<Rightarrow> path" where
  "numbered_candidate self counter =
     path_join (path_parent (target_path self))
       (base_name self @ '' ('' @ str_nat counter @ '')'')"

partial_function (option) unique_path_loop ::
    "path set \<Rightarrow> 'a media_sorter_scheme \<Rightarrow> nat \<Rightarrow> path option" where
  "unique_path_loop existing self counter =
     (let candidate = numbered_candidate self counter in
      if candidate \<notin> existing then Some candidate
      else unique_path_loop existing self (counter + 1))"

declare unique_path_loop.simps [code]

definition generate_unique_path :: "path set \<Rightarrow> 'a media_sorter_scheme \<Rightarrow> path option" where
  "generate_unique_path existing self =
     (let candidate = path_join (path_parent (target_path self)) (base_name self) in
      if candidate \<notin> existing then Some candidate
      else unique_path_loop existing self 1)"

section \<open>The dimension probe\<close>

text \<open>The handler \<^verbatim>\<open>except (UnidentifiedImageError, IOError)\<close>.\<close>

fun decoder_handler_catches :: "exn \<Rightarrow> bool" where
  "decoder_handler_catches (UnidentifiedImageError m) = True"
| "decoder_handler_catches (IOError m) = True"
| "decoder_handler_catches e = False"

text \<open>
  The collaborators of \<^verbatim>\<open>_get_dimensions\<close>; every call of one returns or raises.
  \<open>image_open\<close> stands for \<^verbatim>\<open>Image.open\<close> followed by the reads of \<^verbatim>\<open>width\<close> and
  \<^verbatim>\<open>height\<close>. \<open>createParser\<close> gives a parser or a false value, \<open>extractMetadata\<close> a
  metadata object or a false value. On a metadata object \<open>md_has\<close> is \<^verbatim>\<open>has\<close>, and
  \<open>md_get_int\<close> is \<^verbatim>\<open>get\<close> followed by the conversion \<^verbatim>\<open>int\<close>. Entering and
  leaving the block \<^verbatim>\<open>with parser\<close> is taken to raise nothing.
\<close>

record metadata =
  md_has :: "string \<Rightarrow> exn + bool"
  md_get_int :: "string \<Rightarrow> exn + int"

record 'p media_libs =
  image_open :: "path \<Rightarrow> exn + (int \<times> int)"
  createParser :: "string \<Rightarrow> exn + 'p option"
  extractMetadata :: "'p \<Rightarrow> exn + metadata option"

definition image_suffixes :: "string list" where
  "image_suffixes = [''.jpg'', ''.jpeg'', ''.png'', ''.webp'', ''.gif'']"

definition valid_extensions :: "string list" where
  "valid_extensions =
     [''.jpg'', ''.jpeg'', ''.png'', ''.webp'', ''.gif'', ''.mp4'', ''.mkv'', ''.mov'']"

definition unsupported_format :: exn where
  "unsupported_format = ValueError ''Unsupported format or missing dimension metadata.''"

text \<open>The second half of \<^verbatim>\<open>_get_dimensions\<close>, from \<^verbatim>\<open>createParser\<close> on.\<close>

definition metadata_dimensions :: "'p media_libs \<Rightarrow> path \<Rightarrow> exn + (int \<times> int)" where
  "metadata_dimensions libs file_path =
     (case createParser libs (path_str file_path) of
        Inl e \<Rightarrow> Inl e
      | Inr None \<Rightarrow> Inl unsupported_format
      | Inr (Some parser) \<Rightarrow>
          (case extractMetadata libs parser of
             Inl e \<Rightarrow> Inl e
           | Inr None \<Rightarrow> Inl unsupported_format
           | Inr (Some md) \<Rightarrow>
               (case md_has md ''width'' of
                  Inl e \<Rightarrow> Inl e
                | Inr False \<Rightarrow> Inl unsupported_format
                | Inr True \<Rightarrow>
                    (case md_get_int md ''width'' of
                       Inl e \<Rightarrow> Inl e
                     | Inr w \<Rightarrow>
                         (case md_get_int md ''height'' of
                            Inl e \<Rightarrow> Inl e
                          | Inr h \<Rightarrow> Inr (w, h))))))"

definition get_dimensions :: "'p media_libs \<Rightarrow> path \<Rightarrow> exn + (int \<times> int)" where
  "get_dimensions libs file_path =
     (if str_lower (path_suffix file_path) \<in> set image_suffixes then
        (case image_open libs file_path of
           Inr dims \<Rightarrow> Inr dims
         | Inl e \<Rightarrow>
             if decoder_handler_catches e then metadata_dimensions libs file_path
             else Inl e)
      else metadata_dimensions libs file_path)"


section \<open>The sort run\<close>

text \<open>
  The operating system is a state \<open>'w\<close> and the operations the run performs on it.
  An operation that returns a value gives the value or an exception; an operation
  performed for its effect gives the exception it raised, if any, and the state it
  left. \<open>media\<close> is what the decoding libraries answer in a given state.
\<close>

record ('w, 'p) platform =
  media :: "'w \<Rightarrow> 'p media_libs"
  is_dir :: "'w \<Rightarrow> path \<Rightarrow> bool"
  iterdir :: "'w \<Rightarrow> path \<Rightarrow> path list"
  mkdir_parents :: "path \<Rightarrow> 'w \<Rightarrow> exn option \<times> 'w"
  mkdir :: "path \<Rightarrow> 'w \<Rightarrow> exn option \<times> 'w"
  stat_size :: "'w \<Rightarrow> path \<Rightarrow> exn + nat"
  move :: "string \<Rightarrow> string \<Rightarrow> 'w \<Rightarrow> exn option \<times> 'w"
  copy2 :: "string \<Rightarrow> string \<Rightarrow> 'w \<Rightarrow> exn option \<times> 'w"

datatype log_entry = Info string | Error string

text \<open>
  What a run changes: the sorter object, the operating system's state, the log and
  the lines printed.
\<close>

record 'w session =
  sorter :: media_sorter
  fs :: 'w
  logged :: "log_entry list"
  printed :: "string list"

text \<open>
  \<^verbatim>\<open>self.stats[ratio_folder] += 1\<close> on a \<^verbatim>\<open>Counter\<close>: a key that is present keeps
  its place, a new key goes last with the count one.
\<close>

fun counter_incr :: "string \<Rightarrow> (string \<times> nat) list \<Rightarrow> (string \<times> nat) list" where
  "counter_incr k [] = [(k, 1)]"
| "counter_incr k ((k', c) # rest) =
     (if k' = k then (k', c + 1) # rest else (k', c) # counter_incr k rest)"

text \<open>
  The body of the \<^verbatim>\<open>try\<close> block for one file: the exception that left it, if any,
  and the session as it stands then. The result \<open>None\<close> would be a ratio search that
  never returns.
\<close>

definition try_block ::
    "('w, 'p) platform \<Rightarrow> 'w session \<Rightarrow> path \<Rightarrow> (exn option \<times> 'w session) option" where
  "try_block os s file =
     (case get_dimensions (media os (fs s)) file of
        Inl e \<Rightarrow> Some (Some e, s)
      | Inr (width, height) \<Rightarrow>
          (case int_truediv width height of
             Inl e \<Rightarrow> Some (Some e, s)
           | Inr ratio \<Rightarrow>
            (case apply_limiter (sorter s) ratio of
               None \<Rightarrow> None
             | Some (x, y) \<Rightarrow>
                 (let ratio_folder = str_int x @ ''X'' @ str_int y;
                      subdir = path_join (output_path (sorter s)) ratio_folder
                  in case mkdir os subdir (fs s) of
                       (Some e, w1) \<Rightarrow> Some (Some e, s\<lparr>fs := w1\<rparr>)
                     | (None, w1) \<Rightarrow>
                         (let destination = path_join subdir (path_name file)
                          in case stat_size os w1 file of
                               Inl e \<Rightarrow> Some (Some e, s\<lparr>fs := w1\<rparr>)
                             | Inr file_size \<Rightarrow>
                                 (case (if move_files (sorter s) then move os else copy2 os)
                                         (path_str file) (path_str destination) w1 of
                                    (Some e, w2) \<Rightarrow> Some (Some e, s\<lparr>fs := w2\<rparr>)
                                  | (None, w2) \<Rightarrow>
                                      Some (None,
                                        s\<lparr>fs := w2,
                                          sorter := (sorter s)
                                            \<lparr>stats := counter_incr ratio_folder (stats (sorter s)),
                                             total_size_bytes :=
                                               total_size_bytes (sorter s) + file_size\<rparr>,
                                          logged := logged s @
                                            [Info (''Sorted: '' @ path_name file @ '' -> '' @
                                               ratio_folder)]\<rparr>)))))))"

text \<open>The \<^verbatim>\<open>try\<close> statement with its handler \<^verbatim>\<open>except Exception as e\<close>.\<close>

definition process_file ::
    "('w, 'p) platform \<Rightarrow> 'w session \<Rightarrow> path \<Rightarrow> 'w session option" where
  "process_file os s file =
     (case try_block os s file of
        None \<Rightarrow> None
      | Some (None, s') \<Rightarrow> Some s'
      | Some (Some e, s') \<Rightarrow>
          Some (s'\<lparr>logged := logged s' @
                  [Error (''Skipping '' @ path_name file @ '': '' @ message e)]\<rparr>))"

text \<open>The \<^verbatim>\<open>for\<close> loop over the directory's entries.\<close>

fun sort_files ::
    "('w, 'p) platform \<Rightarrow> 'w session \<Rightarrow> path list \<Rightarrow> 'w session option" where
  "sort_files os s [] = Some s"
| "sort_files os s (file # files) =
     (if str_lower (path_suffix file) \<notin> set valid_extensions then sort_files os s files
      else
        (case process_file os s file of
           None \<Rightarrow> None
         | Some s' \<Rightarrow> sort_files os s' files))"

section \<open>The summary\<close>

text \<open>
  \<^verbatim>\<open>Counter.most_common(1)\<close> takes the maximum of the items by count with Python's
  \<^verbatim>\<open>max\<close>, which keeps the first of several maximal items.
\<close>

fun max_by_count :: "string \<times> nat \<Rightarrow> (string \<times> nat) list \<Rightarrow> string \<times> nat" where
  "max_by_count best [] = best"
| "max_by_count best (item # items) =
     max_by_count (if snd best < snd item then item else best) items"

definition most_common_1 :: "(string \<times> nat) list \<Rightarrow> (string \<times> nat) list" where
  "most_common_1 items = (case items of [] \<Rightarrow> [] | item # rest \<Rightarrow> [max_by_count item rest])"

text \<open>
  \<^verbatim>\<open>{size_mb:.2f}\<close> prints a float rounded to the nearest hundredth of its exact
  value, a tie going to the even digit, with a minus sign for a negative float.
\<close>

definition format_2f :: "real \<Rightarrow> string" where
  "format_2f x =
     (let h = nat (round_even (\<bar>x\<bar> * 100))
      in (if x < 0 then ''-'' else []) @
         str_nat (h div 100) @ ''.'' @ [digit_char (h div 10), digit_char h])"

definition rule_line :: string where
  "rule_line = replicate 30 CHR ''=''"

text \<open>
  The arguments of the successive calls of \<^verbatim>\<open>print\<close>, and the exception that ended
  them, if any: the division \<^verbatim>\<open>self.total_size_bytes / (1024 * 1024)\<close> comes after
  the three lines of the heading.
\<close>

definition print_summary :: "'a media_sorter_scheme \<Rightarrow> exn option \<times> string list" where
  "print_summary self =
     (let heading = [CHR 0x0A # rule_line, ''SORT SUMMARY'', rule_line];
          total_files = sum_list (map snd (stats self))
      in case int_truediv (int (total_size_bytes self)) (1024 * 1024) of
           Inl e \<Rightarrow> (Some e, heading)
         | Inr size_mb \<Rightarrow>
             (None,
              heading @
              [''Total Files Processed: '' @ str_nat total_files,
               ''Total Data handled:    '' @ format_2f size_mb @ '' MB''] @
              (if stats self \<noteq> [] then
                 (let most_common = hd (most_common_1 (stats self))
                  in [''Most Common Ratio: '' @ fst most_common @ '' ('' @
                        str_nat (snd most_common) @ '' files)''])
               else []) @
              [rule_line @ [CHR 0x0A]]))"

text \<open>
  \<^verbatim>\<open>run\<close> gives the exception that ended it, if any, and the session as it stands
  then. A target that is no directory is logged and the run returns; a failure to
  create the output directory ends the run; otherwise every entry is visited and the
  summary printed.
\<close>

definition run ::
    "('w, 'p) platform \<Rightarrow> 'w session \<Rightarrow> (exn option \<times> 'w session) option" where
  "run os s =
     (if \<not> is_dir os (fs s) (target_path (sorter s)) then
        Some (None, s\<lparr>logged := logged s @
          [Error (''Target path '' @ path_str (target_path (sorter s)) @
             '' is not a directory.'')]\<rparr>)
      else
        (case mkdir_parents os (output_path (sorter s)) (fs s) of
           (Some e, w) \<Rightarrow> Some (Some e, s\<lparr>fs := w\<rparr>)
         | (None, w) \<Rightarrow>
             (let s1 = s\<lparr>fs := w,
                        logged := logged s @
                          [Info (''Starting sort in: '' @ path_str (target_path (sorter s)))]\<rparr>
              in case sort_files os s1 (iterdir os w (target_path (sorter s))) of
                   None \<Rightarrow> None
                 | Some s2 \<Rightarrow>
                     (case print_summary (sorter s2) of
                        (ex, lines) \<Rightarrow> Some (ex, s2\<lparr>printed := printed s2 @ lines\<rparr>)))))"

text \<open>
  The constructor: \<^verbatim>\<open>__init__\<close> computes the output path against the paths that
  exist and starts with empty statistics.
\<close>

definition init :: "path set \<Rightarrow> path \<Rightarrow> int \<Rightarrow> bool \<Rightarrow> media_sorter option" where
  "init existing target lmt mv =
     (let self = \<lparr>target_path = target, limiter = lmt, move_files = mv,
                  output_path = [], stats = [], total_size_bytes = 0\<rparr>
      in case generate_unique_path existing self of
           None \<Rightarrow> None
         | Some out \<Rightarrow> Some (self\<lparr>output_path := out\<rparr>))"

text \<open>The log entries that record a file as sorted.\<close>

fun sorted_entry :: "log_entry \<Rightarrow> bool" where
  "sorted_entry (Info m) = (take 8 m = ''Sorted: '')"
| "sorted_entry (Error m) = False"

section \<open>A concrete platform\<close>

text \<open>
  A small platform for concrete evaluations: every picture decodes to 1920 by 1080
  except the one named \<^verbatim>\<open>broken.jpg\<close>, no metadata parser is available, every file
  has one mebibyte, and the file operations succeed.
\<close>

definition example_libs :: "unit media_libs" where
  "example_libs =
     \<lparr>image_open = (\<lambda>p. if path_name p = ''broken.jpg''
                          then Inl (UnidentifiedImageError ''cannot identify image file'')
                          else Inr (1920, 1080)),
      createParser = (\<lambda>name. Inr None),
      extractMetadata = (\<lambda>parser. Inr None)\<rparr>"

definition example_platform :: "(unit, unit) platform" where
  "example_platform =
     \<lparr>media = (\<lambda>w. example_libs),
      is_dir = (\<lambda>w p. True),
      iterdir = (\<lambda>w p. [[''media'', ''a.jpg''], [''media'', ''broken.jpg'']]),
      mkdir_parents = (\<lambda>p w. (None, w)),
      mkdir = (\<lambda>p w. (None, w)),
      stat_size = (\<lambda>w p. Inr 1048576),
      move = (\<lambda>src dst w. (None, w)),
      copy2 = (\<lambda>src dst w. (None, w))\<rparr>"

definition example_session :: "unit session" where
  "example_session =
     \<lparr>sorter = (sorter_with_limiter 10)\<lparr>output_path := [''media_sorted_L10'']\<rparr>,
      fs = (), logged = [], printed = []\<rparr>"

section \<open>Properties of the floating-point operations\<close>

lemma binade_bounds:
  assumes "x \<noteq> 0"
  shows "2 powi binade x \<le> \<bar>x\<bar>" and "\<bar>x\<bar> < 2 powi (binade x + 1)"
proof -
  define a where "a = \<bar>x\<bar>"
  from assms have a0: "0 < a" by (simp add: a_def)
  have "2 powi binade x \<le> a \<and> a < 2 powi (binade x + 1)"
  proof (cases "1 \<le> a")
    case True
    define n where "n = \<lfloor>a\<rfloor>"
    from True have n1: "1 \<le> n" by (simp add: n_def)
    then have n0: "0 < n" by simp
    from bitlen_bounds [OF n0]
    have lo: "2 ^ nat (bitlen n - 1) \<le> n" and hi: "n < 2 ^ nat (bitlen n)" by simp_all
    have k1: "1 \<le> bitlen n" using n0 by (simp add: bitlen_alt_def)
    have e: "binade x = bitlen n - 1" using True by (simp add: binade_def a_def n_def)
    have "(2::real) powi (bitlen n - 1) = 2 ^ nat (bitlen n - 1)"
      using k1 by (simp add: power_int_def)
    also have "\<dots> = real_of_int (2 ^ nat (bitlen n - 1))" by simp
    also have "\<dots> \<le> real_of_int n" using lo by (simp only: of_int_le_iff)
    also have "\<dots> \<le> a" by (simp add: n_def)
    finally have l: "2 powi (bitlen n - 1) \<le> a" .
    from hi have "n + 1 \<le> 2 ^ nat (bitlen n)" by simp
    then have "real_of_int (n + 1) \<le> real_of_int (2 ^ nat (bitlen n))"
      by (simp only: of_int_le_iff)
    moreover have "a < real_of_int (n + 1)" by (simp add: n_def)
    ultimately have "a < 2 ^ nat (bitlen n)" by simp
    also have "\<dots> = (2::real) powi (bitlen n - 1 + 1)"
      using k1 by (simp add: power_int_def)
    finally have u: "a < 2 powi (bitlen n - 1 + 1)" .
    from l u show ?thesis by (simp only: e)
  next
    case False
    define y where "y = 1 / a"
    from False a0 have y1: "1 < y" by (simp add: y_def)
    define m where "m = \<lceil>y\<rceil> - 1"
    from y1 have m1: "1 \<le> m" unfolding m_def by linarith
    then have m0: "0 < m" by simp
    from bitlen_bounds [OF m0]
    have lo: "2 ^ nat (bitlen m - 1) \<le> m" and hi: "m < 2 ^ nat (bitlen m)" by simp_all
    have k1: "1 \<le> bitlen m" using m0 by (simp add: bitlen_alt_def)
    have e: "binade x = - bitlen m" using False by (simp add: binade_def a_def m_def y_def)
    from hi have "m + 1 \<le> 2 ^ nat (bitlen m)" by simp
    then have "real_of_int (m + 1) \<le> real_of_int (2 ^ nat (bitlen m))"
      by (simp only: of_int_le_iff)
    moreover have "y \<le> real_of_int (m + 1)" by (simp add: m_def)
    ultimately have "y \<le> 2 ^ nat (bitlen m)" by simp
    then have "1 / 2 ^ nat (bitlen m) \<le> 1 / y"
      using y1 by (intro divide_left_mono) auto
    moreover have "1 / y = a" using a0 by (simp add: y_def)
    moreover have "(2::real) powi (- bitlen m) = 1 / 2 ^ nat (bitlen m)"
      using k1 by (simp add: power_int_def field_simps)
    ultimately have l: "2 powi (- bitlen m) \<le> a" by simp
    have "real_of_int (2 ^ nat (bitlen m - 1)) \<le> real_of_int m"
      using lo by (rule of_int_le_iff [THEN iffD2])
    then have "(2::real) ^ nat (bitlen m - 1) \<le> real_of_int m" by simp
    moreover have "real_of_int m < y" unfolding m_def by linarith
    ultimately have "2 ^ nat (bitlen m - 1) < y" by linarith
    with y1 have "1 / y < 1 / 2 ^ nat (bitlen m - 1)"
      by (intro divide_strict_left_mono) auto
    moreover have "(2::real) powi (- bitlen m + 1) = 1 / 2 ^ nat (bitlen m - 1)"
    proof (cases "bitlen m = 1")
      case True
      then show ?thesis by simp
    next
      case False
      with k1 have "- bitlen m + 1 < 0" by simp
      moreover have "nat (- (- bitlen m + 1)) = nat (bitlen m - 1)" by simp
      ultimately show ?thesis by (simp add: power_int_def field_simps)
    qed
    ultimately have u: "a < 2 powi (- bitlen m + 1)" using \<open>1 / y = a\<close> by simp
    from l u show ?thesis by (simp only: e)
  qed
  then show "2 powi binade x \<le> \<bar>x\<bar>" and "\<bar>x\<bar> < 2 powi (binade x + 1)"
    by (simp_all add: a_def)
qed


lemma round_even_error: "\<bar>real_of_int (round_even x) - x\<bar> \<le> 1 / 2"
proof -
  have "real_of_int \<lfloor>x\<rfloor> \<le> x" "x < real_of_int \<lfloor>x\<rfloor> + 1" by linarith+
  then show ?thesis
    by (auto simp add: round_even_def Let_def abs_le_iff)
qed

lemma round_even_of_int: "round_even (real_of_int k) = k"
  by (simp add: round_even_def)



lemma round_to_grid: "round_to p (real_of_int k * 2 powi p) = real_of_int k * 2 powi p"
  by (simp add: round_to_def round_even_of_int)

lemma round_to_error: "\<bar>round_to p x - x\<bar> \<le> 2 powi p / 2"
proof -
  have pos: "(0::real) < 2 powi p" by (simp add: power_int_def)
  have "round_to p x - x = (real_of_int (round_even (x / 2 powi p)) - x / 2 powi p) * 2 powi p"
    using pos by (simp add: round_to_def field_simps)
  then have "\<bar>round_to p x - x\<bar> =
      \<bar>real_of_int (round_even (x / 2 powi p)) - x / 2 powi p\<bar> * 2 powi p"
    using pos by (simp add: abs_mult)
  also have "\<dots> \<le> (1 / 2) * 2 powi p"
    using pos round_even_error [of "x / 2 powi p"] by (intro mult_right_mono) auto
  finally show ?thesis by simp
qed



lemma pow2_pos: "(0::real) < 2 powi p"
  by (simp add: power_int_def)

lemma pow2_less_exp: "(2::real) powi a < 2 powi b \<Longrightarrow> a < b"
proof (rule ccontr)
  assume lt: "(2::real) powi a < 2 powi b" and "\<not> a < b"
  then have "b \<le> a" by simp
  then have "(2::real) powi b \<le> 2 powi a" by (intro power_int_increasing) auto
  with lt show False by simp
qed

lemma pow2_split: "p \<le> e \<Longrightarrow> (2::real) powi e = 2 ^ nat (e - p) * 2 powi p"
proof -
  assume "p \<le> e"
  have "(2::real) powi e = 2 powi ((e - p) + p)" by simp
  also have "\<dots> = 2 powi (e - p) * 2 powi p" by (subst power_int_add) auto
  also have "2 powi (e - p) = (2::real) ^ nat (e - p)"
    using \<open>p \<le> e\<close> by (simp add: power_int_def)
  finally show ?thesis .
qed

lemma double_round_repr:
  assumes m: "\<bar>m\<bar> < 2 ^ 53"
  shows "double_round (real_of_int m * 2 powi e) = real_of_int m * 2 powi e"
proof (cases "m = 0")
  case True
  then show ?thesis by (simp add: double_round_def)
next
  case False
  define x where "x = real_of_int m * 2 powi e"
  from False have x0: "x \<noteq> 0" by (simp add: x_def)
  have "real_of_int \<bar>m\<bar> < real_of_int (2 ^ 53)" using m by (rule of_int_less_iff [THEN iffD2])
  then have mr: "\<bar>real_of_int m\<bar> < 2 ^ 53" by simp
  have "2 powi binade x \<le> \<bar>x\<bar>" by (rule binade_bounds(1) [OF x0])
  also have "\<bar>x\<bar> = \<bar>real_of_int m\<bar> * 2 powi e"
    using pow2_pos [of e] by (simp add: x_def abs_mult)
  also have "\<dots> < 2 ^ 53 * 2 powi e"
    using mr pow2_pos [of e] by (intro mult_strict_right_mono) auto
  also have "\<dots> = 2 powi (53 + e)" by (subst power_int_add) auto
  finally have "binade x < 53 + e" by (rule pow2_less_exp)
  then have p: "binade x - 52 \<le> e" by simp
  have "real_of_int m * 2 powi e =
      real_of_int (m * 2 ^ nat (e - (binade x - 52))) * 2 powi (binade x - 52)"
    by (subst pow2_split [OF p]) simp
  then have "x = real_of_int (m * 2 ^ nat (e - (binade x - 52))) * 2 powi (binade x - 52)"
    by (simp only: x_def [symmetric])
  then have "round_to (binade x - 52) x = x"
    by (metis round_to_grid)
  with x0 show ?thesis by (simp add: double_round_def x_def)
qed

lemma is_double_repr:
  assumes "is_double r"
  shows "\<exists>m e. \<bar>m\<bar> < 2 ^ 53 \<and> r = real_of_int m * 2 powi e"
proof (cases "r = 0")
  case True
  then have "\<bar>0::int\<bar> < 2 ^ 53 \<and> r = real_of_int 0 * 2 powi 0" by simp
  then show ?thesis by blast
next
  case False
  define p where "p = binade r - 52"
  define k where "k = round_even (r / 2 powi p)"
  from assms False have r: "r = real_of_int k * 2 powi p"
    by (simp add: is_double_def double_round_def round_to_def k_def p_def)
  have "\<bar>r\<bar> < 2 powi (binade r + 1)" by (rule binade_bounds(2) [OF False])
  also have "\<dots> = 2 powi (53 + p)"
  proof -
    have "binade r + 1 = 53 + p" by (simp add: p_def)
    then show ?thesis by (simp only:)
  qed
  also have "\<dots> = 2 ^ 53 * 2 powi p" by (subst power_int_add) auto
  finally have "\<bar>real_of_int k\<bar> * 2 powi p < 2 ^ 53 * 2 powi p"
    using pow2_pos [of p] by (subst (asm) r) (simp add: abs_mult)
  then have "\<bar>real_of_int k\<bar> < 2 ^ 53" using pow2_pos [of p] by simp
  then have "real_of_int \<bar>k\<bar> < real_of_int (2 ^ 53)" by simp
  then have "\<bar>k\<bar> < 2 ^ 53" by (rule of_int_less_iff [THEN iffD1])
  with r show ?thesis by blast
qed

lemma is_double_reprI: "\<bar>m\<bar> < 2 ^ 53 \<Longrightarrow> is_double (real_of_int m * 2 powi e)"
  by (simp add: is_double_def double_round_repr)

lemma float_of_int_exact: "\<bar>n\<bar> < 2 ^ 53 \<Longrightarrow> float_of_int n = real_of_int n"
  using double_round_repr [of n 0] by (simp add: float_of_int_def)

lemma float_mul_one: "is_double r \<Longrightarrow> float_mul r (float_of_int 1) = r"
  by (simp add: float_of_int_exact float_mul_def is_double_def)

lemma float_mul_two:
  assumes "is_double r"
  shows "float_mul r (float_of_int 2) = r * 2"
proof -
  from is_double_repr [OF assms] obtain m e
    where m: "\<bar>m\<bar> < 2 ^ 53" and r: "r = real_of_int m * 2 powi e" by blast
  have "r * 2 = real_of_int m * 2 powi (e + 1)"
    by (simp add: r power_int_add)
  then have "double_round (r * 2) = r * 2"
    using double_round_repr [OF m, of "e + 1"] by simp
  then show ?thesis by (simp add: float_mul_def float_of_int_exact)
qed

lemma double_round_error: "\<bar>double_round x - x\<bar> \<le> \<bar>x\<bar> / 2 ^ 53"
proof (cases "x = 0")
  case True
  then show ?thesis by (simp add: double_round_def)
next
  case False
  have "\<bar>double_round x - x\<bar> \<le> 2 powi (binade x - 52) / 2"
    using False round_to_error [of "binade x - 52" x] by (simp add: double_round_def)
  also have "2 powi (binade x - 52) / 2 = 2 powi binade x / (2::real) ^ 53"
  proof -
    have "(2::real) powi binade x = 2 powi (52 + (binade x - 52))" by simp
    also have "\<dots> = 2 ^ 52 * 2 powi (binade x - 52)" by (subst power_int_add) auto
    finally show ?thesis by simp
  qed
  also have "\<dots> \<le> \<bar>x\<bar> / 2 ^ 53"
    using binade_bounds(1) [OF False] by (intro divide_right_mono) auto
  finally show ?thesis .
qed


section \<open>Properties of the ratio approximation\<close>

text \<open>
  The definitions that the simplifier unfolds to run the floating-point operations on
  concrete numbers.
\<close>

lemmas float_eval = float_mul_def float_of_int_def double_round_def round_to_def
  binade_def round_even_def compute_bitlen Let_def

lemma farey_loop_up:
  "real_of_int (a + c) < float_mul r (float_of_int (b + d)) \<Longrightarrow>
   farey_loop lmt r (a, b) (c, d) =
     (if lmt < b + d then Some (c, d) else farey_loop lmt r (a + c, b + d) (c, d))"
  by (subst farey_loop.simps) (simp add: Let_def)

lemma farey_loop_eq:
  "float_mul r (float_of_int (b + d)) = real_of_int (a + c) \<Longrightarrow>
   farey_loop lmt r (a, b) (c, d) = Some (a + c, b + d)"
  by (subst farey_loop.simps) (simp add: Let_def)

lemma farey_loop_down:
  "float_mul r (float_of_int (b + d)) < real_of_int (a + c) \<Longrightarrow>
   farey_loop lmt r (a, b) (c, d) =
     (if lmt < b + d then Some (a, b) else farey_loop lmt r (a, b) (a + c, b + d))"
  by (subst farey_loop.simps) (simp add: Let_def)

lemma farey_measure_up:
  assumes "1 \<le> b" "0 \<le> d" "1 \<le> c" "b + d \<le> lmt"
    and "real_of_int (a + c) < float_mul r (float_of_int (b + d))"
  shows "farey_measure lmt r (a + c, b + d) (c, d) < farey_measure lmt r (a, b) (c, d)"
proof (cases "d = 0")
  case True
  from assms(5) True have "real_of_int (a + c) < float_mul r (float_of_int b)" by simp
  then have "a + c < \<lceil>float_mul r (float_of_int b)\<rceil>" by (simp add: less_ceiling_iff)
  with assms(3) True show ?thesis by (simp add: farey_measure_def)
next
  case False
  with assms show ?thesis by (simp add: farey_measure_def)
qed

lemma farey_measure_down:
  assumes "1 \<le> b" "0 \<le> d" "b + d \<le> lmt"
  shows "farey_measure lmt r (a, b) (a + c, b + d) < farey_measure lmt r (a, b) (c, d)"
  using assms by (cases "d = 0") (auto simp add: farey_measure_def)

text \<open>
  The proof rule for the loop: an invariant \<open>I\<close> of the two bounds that keeps the
  denominators in range, and a postcondition \<open>Q\<close> established at each of the three
  return statements. The comparisons are the ones the loop makes, on the rounded
  product. The conclusion is total: the loop returns, and what it returns satisfies
  \<open>Q\<close>.
\<close>

lemma farey_loop_rule:
  fixes r :: real and lmt :: int
  assumes init: "I lower upper"
    and range: "\<And>a b c d. I (a, b) (c, d) \<Longrightarrow> 1 \<le> b \<and> 0 \<le> d \<and> 1 \<le> c"
    and step_up: "\<And>a b c d. I (a, b) (c, d) \<Longrightarrow>
        real_of_int (a + c) < float_mul r (float_of_int (b + d)) \<Longrightarrow> b + d \<le> lmt \<Longrightarrow>
        I (a + c, b + d) (c, d)"
    and step_down: "\<And>a b c d. I (a, b) (c, d) \<Longrightarrow>
        float_mul r (float_of_int (b + d)) < real_of_int (a + c) \<Longrightarrow> b + d \<le> lmt \<Longrightarrow>
        I (a, b) (a + c, b + d)"
    and ret_upper: "\<And>a b c d. I (a, b) (c, d) \<Longrightarrow>
        real_of_int (a + c) < float_mul r (float_of_int (b + d)) \<Longrightarrow> lmt < b + d \<Longrightarrow>
        Q (c, d)"
    and ret_mediant: "\<And>a b c d. I (a, b) (c, d) \<Longrightarrow>
        float_mul r (float_of_int (b + d)) = real_of_int (a + c) \<Longrightarrow> Q (a + c, b + d)"
    and ret_lower: "\<And>a b c d. I (a, b) (c, d) \<Longrightarrow>
        float_mul r (float_of_int (b + d)) < real_of_int (a + c) \<Longrightarrow> lmt < b + d \<Longrightarrow>
        Q (a, b)"
  shows "\<exists>res. farey_loop lmt r lower upper = Some res \<and> Q res"
  using init
proof (induction "farey_measure lmt r lower upper" arbitrary: lower upper rule: less_induct)
  case less
  obtain a b c d where lo: "lower = (a, b)" and up: "upper = (c, d)"
    by (cases lower, cases upper) blast
  from less.prems have inv: "I (a, b) (c, d)" by (simp add: lo up)
  from range [OF inv] have b1: "1 \<le> b" and d0: "0 \<le> d" and c1: "1 \<le> c" by simp_all
  consider (above) "real_of_int (a + c) < float_mul r (float_of_int (b + d))"
    | (exact) "float_mul r (float_of_int (b + d)) = real_of_int (a + c)"
    | (below) "float_mul r (float_of_int (b + d)) < real_of_int (a + c)"
    by linarith
  then show ?case
  proof cases
    case above
    show ?thesis
    proof (cases "lmt < b + d")
      case True
      with above ret_upper [OF inv above] show ?thesis
        by (simp add: lo up farey_loop_up)
    next
      case False
      then have le: "b + d \<le> lmt" by simp
      have "farey_measure lmt r (a + c, b + d) (c, d) < farey_measure lmt r lower upper"
        unfolding lo up by (rule farey_measure_up [OF b1 d0 c1 le above])
      from less.hyps [OF this step_up [OF inv above le]] above False show ?thesis
        by (simp add: lo up farey_loop_up)
    qed
  next
    case exact
    with ret_mediant [OF inv exact] show ?thesis
      by (simp add: lo up farey_loop_eq)
  next
    case below
    show ?thesis
    proof (cases "lmt < b + d")
      case True
      with below ret_lower [OF inv below] show ?thesis
        by (simp add: lo up farey_loop_down)
    next
      case False
      then have le: "b + d \<le> lmt" by simp
      have "farey_measure lmt r (a, b) (a + c, b + d) < farey_measure lmt r lower upper"
        unfolding lo up by (rule farey_measure_down [OF b1 d0 le])
      from less.hyps [OF this step_down [OF inv below le]] below False show ?thesis
        by (simp add: lo up farey_loop_down)
    qed
  qed
qed

lemma det_coprime:
  fixes a b c d :: int
  assumes "c * b - a * d = 1"
  shows "coprime c d" and "coprime a b" and "coprime (a + c) (b + d)"
proof -
  show "coprime c d"
  proof (rule coprimeI)
    fix k assume "k dvd c" "k dvd d"
    then have "k dvd c * b - a * d" by simp
    with assms show "is_unit k" by simp
  qed
  show "coprime a b"
  proof (rule coprimeI)
    fix k assume "k dvd a" "k dvd b"
    then have "k dvd c * b - a * d" by simp
    with assms show "is_unit k" by simp
  qed
  show "coprime (a + c) (b + d)"
  proof (rule coprimeI)
    fix k assume "k dvd a + c" "k dvd b + d"
    then have "k dvd (a + c) * (b + d) - a * (b + d) - (a + c) * d" 
      by (simp add: dvd_diff)
    moreover have "(a + c) * (b + d) - a * (b + d) - (a + c) * d = c * b - a * d"
      by (simp add: algebra_simps)
    ultimately show "is_unit k" using assms by simp
  qed
qed

lemma farey_gap:
  fixes a b c d p q :: int
  assumes det: "c * b - a * d = 1" and "1 \<le> b" "0 \<le> d"
    and lo: "a * q < p * b" and hi: "p * d < c * q"
  shows "b + d \<le> q"
proof -
  have "q = q * (c * b - a * d)" using det by simp
  also have "\<dots> = b * (c * q - p * d) + d * (p * b - a * q)"
    by (simp add: algebra_simps)
  finally have q: "q = b * (c * q - p * d) + d * (p * b - a * q)" .
  have "b * 1 \<le> b * (c * q - p * d)"
    using assms by (intro mult_left_mono) auto
  moreover have "d * 1 \<le> d * (p * b - a * q)"
    using assms by (intro mult_left_mono) auto
  ultimately show ?thesis using q by linarith
qed




lemma cross_le_rev:
  fixes r :: real and m n p q :: int
  assumes "r * real_of_int n \<le> real_of_int m" "real_of_int p \<le> r * real_of_int q"
    and "0 \<le> q" "0 \<le> n"
  shows "p * n \<le> m * q"
proof -
  have "real_of_int p * real_of_int n \<le> (r * real_of_int q) * real_of_int n"
    using assms(2,4) by (intro mult_right_mono) auto
  also have "\<dots> = (r * real_of_int n) * real_of_int q" by simp
  also have "\<dots> \<le> real_of_int m * real_of_int q"
    using assms(1,3) by (intro mult_right_mono) auto
  finally have "real_of_int (p * n) \<le> real_of_int (m * q)" by simp
  then show ?thesis by (simp only: of_int_le_iff)
qed

lemma farey_inv_init: "1 \<le> lmt \<Longrightarrow> 0 \<le> r \<Longrightarrow> farey_inv lmt r (0, 1) (1, 0)"
  by (simp add: farey_inv_def)

lemma farey_inv_up:
  assumes "farey_inv lmt r (a, b) (c, d)"
    and "real_of_int (a + c) < r * real_of_int (b + d)" "b + d \<le> lmt"
  shows "farey_inv lmt r (a + c, b + d) (c, d)"
  using assms by (simp add: farey_inv_def algebra_simps)

lemma farey_inv_down:
  assumes "farey_inv lmt r (a, b) (c, d)"
    and "r * real_of_int (b + d) < real_of_int (a + c)" "b + d \<le> lmt"
  shows "farey_inv lmt r (a, b) (a + c, b + d)"
  using assms by (simp add: farey_inv_def algebra_simps)



lemma coprime_cross_eq:
  fixes x y x0 y0 :: int
  assumes "x * y0 = x0 * y" "coprime x y" "coprime x0 y0" "1 \<le> y" "1 \<le> y0"
  shows "x = x0 \<and> y = y0"
proof -
  have "y dvd x * y0" using assms(1) by simp
  with assms(2) have "y dvd y0"
    by (simp add: coprime_commute coprime_dvd_mult_right_iff)
  moreover have "y0 dvd x0 * y" using assms(1) [symmetric] by simp
  with assms(3) have "y0 dvd y"
    by (simp add: coprime_commute coprime_dvd_mult_right_iff)
  ultimately have "y = y0" using assms(4,5) by (simp add: zdvd_antisym_nonneg)
  with assms(1,4) show ?thesis by simp
qed

subsection \<open>Bounds on the returned fraction\<close>

text \<open>
  Claim C1: for every ratio \<open>r \<ge> 0\<close> and every limiter of at least one, the
  returned fraction \<open>(x, y)\<close> has \<open>x \<ge> 0\<close>, \<open>y \<ge> 1\<close> and \<open>y \<le> limiter\<close>. The
  two branches that move a bound test the limiter before they accept the mediant; the
  branch for an exact match returns the mediant untested. With a limiter of one and the
  ratio \<open>3 / 2\<close> the search returns \<open>(3, 2)\<close>, whose denominator exceeds the
  limiter.
\<close>

theorem apply_limiter_exceeds_limiter:
  "limiter (sorter_with_limiter 1) = 1 \<and>
   apply_limiter (sorter_with_limiter 1) (3 / 2) = Some (3, 2)"
  by (simp add: apply_limiter_def sorter_with_limiter_def farey_loop.simps float_eval)

subsection \<open>Closeness of the returned fraction\<close>










subsection \<open>Termination\<close>

text \<open>
  Termination needs neither a bound on the limiter nor on the ratio, and does not
  depend on how a comparison comes out: the range of the two bounds is an invariant by
  itself.
\<close>

lemma farey_loop_returns: "\<exists>res. farey_loop lmt r (0, 1) (1, 0) = Some res"
proof -
  have "\<exists>res. farey_loop lmt r (0, 1) (1, 0) = Some res \<and> True"
    by (rule farey_loop_rule
          [where I = "\<lambda>lower upper. 0 \<le> fst lower \<and> 1 \<le> snd lower \<and>
                        0 \<le> snd upper \<and> 1 \<le> fst upper"])
      simp_all
  then show ?thesis by simp
qed

text \<open>
  Claim C3: for every ratio \<open>r \<ge> 0\<close> and every integer limiter, also one below
  one, the mediant search returns after finitely many iterations.
\<close>

theorem apply_limiter_terminates:
  "0 \<le> r \<Longrightarrow> \<exists>res. apply_limiter self r = Some res"
  using farey_loop_returns [of "limiter self" r] by (simp add: apply_limiter_def)

theorem apply_limiter_terminates_witness:
  "(0::real) \<le> 9 / 4 \<and> (\<exists>res. apply_limiter (sorter_with_limiter (- 4)) (9 / 4) = Some res)"
  using apply_limiter_terminates [of "9 / 4" "sorter_with_limiter (- 4)"] by simp

subsection \<open>Exact ratios\<close>

text \<open>
  Claim C4, that the search on the quotient of coprime \<open>x0\<close> and \<open>y0 \<le> limiter\<close>
  returns \<open>(x0, y0)\<close>, fails for large numbers. For the consecutive Fibonacci numbers
  \<open>267914296\<close> and \<open>165580141\<close> the rounded product of the quotient and \<open>102334155\<close>
  is the integer \<open>165580141\<close>, and the equality test ends the search one convergent
  early.
\<close>

theorem apply_limiter_exact_match_counterexample:
  "coprime (267914296::int) 165580141 \<and> (1::int) \<le> 165580141 \<and>
   165580141 \<le> limiter (sorter_with_limiter 165580141) \<and>
   int_truediv 267914296 165580141 = Inr (910872158600853 / 562949953421312) \<and>
   apply_limiter (sorter_with_limiter 165580141) (910872158600853 / 562949953421312) =
     Some (165580141, 102334155)"
proof -
  have "(165580141::int) * 165580141 - 267914296 * 102334155 = 1" by simp
  then have c: "coprime (267914296::int) 165580141" by (rule det_coprime(2))
  have d: "int_truediv 267914296 165580141 = Inr (910872158600853 / 562949953421312)"
    by (simp add: int_truediv_def float_eval)
  have s: "apply_limiter (sorter_with_limiter 165580141) (910872158600853 / 562949953421312) =
     Some (165580141, 102334155)"
    by (simp add: apply_limiter_def sorter_with_limiter_def farey_loop.simps float_eval)
  from c d s show ?thesis by (simp add: sorter_with_limiter_def)
qed

text \<open>
  The quotient of two integers within the bound is rounded once, and the product with a
  denominator of the search once more. The two errors together stay below the least
  distance \<open>1 / y0\<close> between the exact product and an integer it does not equal.
\<close>

lemma truediv_value:
  assumes "1 \<le> y0" "0 \<le> x0" "x0 \<le> 2 ^ 49" "y0 \<le> 2 ^ 49"
  shows "int_truediv x0 y0 = Inr (double_round (real_of_int x0 / real_of_int y0))"
proof (cases "x0 = 0")
  case True
  with assms(1) show ?thesis by (simp add: int_truediv_def double_round_def)
next
  case False
  define q where "q = real_of_int x0 / real_of_int y0"
  from False assms have x1: "1 \<le> real_of_int x0" and y1: "1 \<le> real_of_int y0" by simp_all
  have yu: "real_of_int y0 \<le> 2 ^ 49" using assms(4) by (metis of_int_le_iff of_int_numeral of_int_power)
  have xu: "real_of_int x0 \<le> 2 ^ 49" using assms(3) by (metis of_int_le_iff of_int_numeral of_int_power)
  have q0: "0 < q" using x1 y1 by (simp add: q_def)
  then have qn: "q \<noteq> 0" by simp
  have "1 / 2 ^ 49 \<le> 1 / real_of_int y0"
    using y1 yu by (intro divide_left_mono) auto
  also have "\<dots> \<le> q" using x1 y1 by (simp add: q_def divide_right_mono)
  finally have ql: "1 / 2 ^ 49 \<le> q" .
  have "(2::real) powi (- 49) = 1 / 2 ^ 49" by (simp add: power_int_minus_divide)
  with ql have "2 powi (- 49) \<le> \<bar>q\<bar>" using q0 by simp
  also have "\<bar>q\<bar> < 2 powi (binade q + 1)" by (rule binade_bounds(2) [OF qn])
  finally have "- 49 < binade q + 1" by (rule pow2_less_exp)
  then have mx: "max (binade q) (- 1022) = binade q" by simp
  have qu: "q \<le> 2 ^ 49"
  proof -
    have "q \<le> real_of_int x0 / 1" unfolding q_def using x1 y1 by (intro divide_left_mono) auto
    with xu show ?thesis by simp
  qed
  have "\<bar>double_round q - q\<bar> \<le> \<bar>q\<bar> / 2 ^ 53" by (rule double_round_error)
  also have "\<dots> \<le> q" using q0 by (simp add: field_simps)
  finally have "\<bar>double_round q\<bar> \<le> 2 * q" using q0 by (simp add: abs_le_iff)
  also have "\<dots> \<le> 2 ^ 50" using qu by simp
  also have "\<dots> < (2::real) ^ 1024" by (rule power_strict_increasing) simp_all
  finally have small: "\<not> 2 ^ 1024 \<le> \<bar>double_round q\<bar>" by simp
  have dr: "round_to (binade q - 52) q = double_round q" using qn by (simp add: double_round_def)
  from assms(1) have "y0 \<noteq> 0" by simp
  then show ?thesis
    using qn small unfolding int_truediv_def q_def [symmetric] Let_def mx dr by simp
qed

lemma rounded_product_error:
  assumes y0: "1 \<le> y0" and x0: "0 \<le> x0" and n: "1 \<le> n" "\<bar>n\<bar> < 2 ^ 53"
  shows "\<bar>float_mul (double_round (real_of_int x0 / real_of_int y0)) (float_of_int n) -
           real_of_int x0 * real_of_int n / real_of_int y0\<bar>
         \<le> 3 * (real_of_int x0 * real_of_int n / real_of_int y0) / 2 ^ 53"
proof -
  define q where "q = real_of_int x0 / real_of_int y0"
  define r where "r = double_round q"
  define f where "f = double_round (r * real_of_int n)"
  have q0: "0 \<le> q" using y0 x0 by (simp add: q_def)
  have n1: "1 \<le> real_of_int n" using n(1) by simp
  have e1: "\<bar>r - q\<bar> \<le> q / 2 ^ 53"
    using double_round_error [of q] q0 by (simp add: r_def)
  have "q / 2 ^ 53 \<le> q / 1" using q0 by (intro divide_left_mono) auto
  with e1 have "\<bar>r - q\<bar> \<le> q" by simp
  then have ru: "r \<le> 2 * q" and r0: "0 \<le> r" by (simp_all add: abs_le_iff)
  have e2: "\<bar>f - r * real_of_int n\<bar> \<le> (r * real_of_int n) / 2 ^ 53"
    using double_round_error [of "r * real_of_int n"] r0 n1 by (simp add: f_def)
  define e where "e = (q * real_of_int n) / 2 ^ 53"
  have "(r * real_of_int n) / 2 ^ 53 \<le> (2 * q * real_of_int n) / 2 ^ 53"
    using ru n1 by (intro divide_right_mono mult_right_mono) auto
  also have "\<dots> = 2 * e" by (simp add: e_def)
  finally have e2': "\<bar>f - r * real_of_int n\<bar> \<le> 2 * e" using e2 by linarith
  have "\<bar>r * real_of_int n - q * real_of_int n\<bar> = \<bar>r - q\<bar> * real_of_int n"
    using n1 by (simp add: abs_mult flip: left_diff_distrib)
  also have "\<dots> \<le> (q / 2 ^ 53) * real_of_int n"
    using e1 n1 by (intro mult_right_mono) auto
  also have "\<dots> = e" by (simp add: e_def)
  finally have e1': "\<bar>r * real_of_int n - q * real_of_int n\<bar> \<le> e" .
  from e1' e2' have "\<bar>f - q * real_of_int n\<bar> \<le> 3 * e" by linarith
  moreover have "3 * e = 3 * (q * real_of_int n) / 2 ^ 53" by (simp add: e_def)
  ultimately have "\<bar>f - q * real_of_int n\<bar> \<le> 3 * (q * real_of_int n) / 2 ^ 53"
    by (simp only:)
  moreover have "f = float_mul (double_round (real_of_int x0 / real_of_int y0)) (float_of_int n)"
    by (simp add: f_def r_def q_def float_mul_def float_of_int_exact [OF n(2)])
  moreover have "q * real_of_int n = real_of_int x0 * real_of_int n / real_of_int y0"
    by (simp add: q_def)
  ultimately show ?thesis by simp
qed

lemma rounded_product_sign:
  assumes y0: "1 \<le> y0" and x0: "0 \<le> x0" and n: "1 \<le> n" "\<bar>n\<bar> < 2 ^ 53"
    and bd: "3 * (x0 * n) < 2 ^ 53"
  shows "m * y0 + 1 \<le> x0 * n \<Longrightarrow>
      real_of_int m < float_mul (double_round (real_of_int x0 / real_of_int y0)) (float_of_int n)"
    and "x0 * n + 1 \<le> m * y0 \<Longrightarrow>
      float_mul (double_round (real_of_int x0 / real_of_int y0)) (float_of_int n) < real_of_int m"
proof -
  define A where "A = real_of_int x0 * real_of_int n / real_of_int y0"
  define B where "B = 1 / real_of_int y0"
  define F where "F = float_mul (double_round (real_of_int x0 / real_of_int y0)) (float_of_int n)"
  have yp: "0 < real_of_int y0" using y0 by simp
  define e where "e = 3 * A / 2 ^ 53"
  have err: "\<bar>F - A\<bar> \<le> e"
    unfolding F_def A_def e_def by (rule rounded_product_error [OF y0 x0 n])
  have "real_of_int (3 * (x0 * n)) < real_of_int (2 ^ 53)"
    using bd by (rule of_int_less_iff [THEN iffD2])
  then have "3 * (real_of_int x0 * real_of_int n) < 2 ^ 53" by simp
  then have lt1: "3 * (real_of_int x0 * real_of_int n) / 2 ^ 53 < 1" by simp
  have "(3 * (real_of_int x0 * real_of_int n) / 2 ^ 53) / real_of_int y0 < 1 / real_of_int y0"
    by (rule divide_strict_right_mono [OF lt1 yp])
  moreover have "3 * A / 2 ^ 53 =
      (3 * (real_of_int x0 * real_of_int n) / 2 ^ 53) / real_of_int y0"
    by (simp add: A_def)
  ultimately have small: "e < B" by (simp only: B_def e_def)
  show "real_of_int m < F" if "m * y0 + 1 \<le> x0 * n"
  proof -
    from that have "real_of_int (m * y0 + 1) \<le> real_of_int (x0 * n)"
      by (rule of_int_le_iff [THEN iffD2])
    then have "real_of_int m * real_of_int y0 + 1 \<le> real_of_int x0 * real_of_int n" by simp
    then have "(real_of_int m * real_of_int y0 + 1) / real_of_int y0
        \<le> real_of_int x0 * real_of_int n / real_of_int y0"
      using yp by (simp add: divide_right_mono)
    then have "real_of_int m + B \<le> A" using yp by (simp add: A_def B_def field_simps)
    with err small show ?thesis by linarith
  qed
  show "F < real_of_int m" if "x0 * n + 1 \<le> m * y0"
  proof -
    from that have "real_of_int (x0 * n + 1) \<le> real_of_int (m * y0)"
      by (rule of_int_le_iff [THEN iffD2])
    then have "real_of_int x0 * real_of_int n + 1 \<le> real_of_int m * real_of_int y0" by simp
    then have "(real_of_int x0 * real_of_int n + 1) / real_of_int y0
        \<le> real_of_int m * real_of_int y0 / real_of_int y0"
      using yp by (intro divide_right_mono) auto
    then have "A + B \<le> real_of_int m" using yp by (simp add: A_def B_def field_simps)
    with err small show ?thesis by linarith
  qed
qed

lemma exact_inv_range:
  "exact_inv lmt x0 y0 (a, b) (c, d) \<Longrightarrow> 1 \<le> b \<and> 0 \<le> d \<and> 1 \<le> c"
  by (simp add: exact_inv_def)

lemma farey_loop_exact_match:
  assumes cop: "coprime x0 y0" and y1: "1 \<le> y0" and yl: "y0 \<le> lmt" and x0: "0 \<le> x0"
    and bd: "(x0 + 1) * lmt \<le> 2 ^ 49"
  shows "\<exists>res. farey_loop lmt (double_round (real_of_int x0 / real_of_int y0)) (0, 1) (1, 0) =
            Some res \<and> res = (x0, y0)"
proof -
  define r where "r = double_round (real_of_int x0 / real_of_int y0)"
  from y1 yl have l1: "1 \<le> lmt" by simp
  have "lmt = 1 * lmt" by simp
  also have "\<dots> \<le> (x0 + 1) * lmt" using x0 l1 by (intro mult_right_mono) auto
  finally have lu: "lmt \<le> 2 ^ 49" using bd by simp
  have "x0 * lmt \<le> (x0 + 1) * lmt" using l1 by (intro mult_right_mono) auto
  with bd have xl: "x0 * lmt \<le> 2 ^ 49" by simp
  have sign: "m * y0 + 1 \<le> x0 * n \<Longrightarrow> real_of_int m < float_mul r (float_of_int n)"
      "x0 * n + 1 \<le> m * y0 \<Longrightarrow> float_mul r (float_of_int n) < real_of_int m"
    if n: "1 \<le> n" "n \<le> 2 * lmt" for m n
  proof -
    from n lu have n53: "\<bar>n\<bar> < 2 ^ 53" by simp
    have "x0 * n \<le> x0 * (2 * lmt)" using x0 n(2) by (intro mult_left_mono) auto
    also have "\<dots> = 2 * (x0 * lmt)" by simp
    also have "\<dots> \<le> 2 * 2 ^ 49" using xl by (intro mult_left_mono) auto
    finally have "3 * (x0 * n) < 2 ^ 53" by simp
    from rounded_product_sign [OF y1 x0 n(1) n53 this, of m]
    show "m * y0 + 1 \<le> x0 * n \<Longrightarrow> real_of_int m < float_mul r (float_of_int n)"
      "x0 * n + 1 \<le> m * y0 \<Longrightarrow> float_mul r (float_of_int n) < real_of_int m"
      by (simp_all only: r_def)
  qed
  have above: "m * y0 \<le> x0 * n"
    if "1 \<le> n" "n \<le> 2 * lmt" "real_of_int m < float_mul r (float_of_int n)" for m n
  proof (rule ccontr)
    assume "\<not> m * y0 \<le> x0 * n"
    then have "x0 * n + 1 \<le> m * y0" by simp
    from sign(2) [OF that(1,2) this] that(3) show False by simp
  qed
  have below: "x0 * n \<le> m * y0"
    if "1 \<le> n" "n \<le> 2 * lmt" "float_mul r (float_of_int n) < real_of_int m" for m n
  proof (rule ccontr)
    assume "\<not> x0 * n \<le> m * y0"
    then have "m * y0 + 1 \<le> x0 * n" by simp
    from sign(1) [OF that(1,2) this] that(3) show False by simp
  qed
  have equal: "x0 * n = m * y0"
    if "1 \<le> n" "n \<le> 2 * lmt" "float_mul r (float_of_int n) = real_of_int m" for m n
  proof (rule ccontr)
    assume "x0 * n \<noteq> m * y0"
    then have "m * y0 + 1 \<le> x0 * n \<or> x0 * n + 1 \<le> m * y0" by linarith
    with sign(1) [OF that(1,2), of m] sign(2) [OF that(1,2), of m] that(3) show False by auto
  qed
  have "\<exists>res. farey_loop lmt r (0, 1) (1, 0) = Some res \<and> res = (x0, y0)"
  proof (rule farey_loop_rule [where I = "exact_inv lmt x0 y0"])
    show "exact_inv lmt x0 y0 (0, 1) (1, 0)"
      using l1 x0 y1 by (simp add: exact_inv_def)
  next
    fix a b c d assume "exact_inv lmt x0 y0 (a, b) (c, d)"
    then show "1 \<le> b \<and> 0 \<le> d \<and> 1 \<le> c" by (rule exact_inv_range)
  next
    fix a b c d
    assume inv: "exact_inv lmt x0 y0 (a, b) (c, d)"
      and fl: "real_of_int (a + c) < float_mul r (float_of_int (b + d))" and le: "b + d \<le> lmt"
    from inv le l1 have n: "1 \<le> b + d" "b + d \<le> 2 * lmt" by (simp_all add: exact_inv_def)
    from above [OF n fl] inv le show "exact_inv lmt x0 y0 (a + c, b + d) (c, d)"
      by (simp add: exact_inv_def algebra_simps)
  next
    fix a b c d
    assume inv: "exact_inv lmt x0 y0 (a, b) (c, d)"
      and fl: "float_mul r (float_of_int (b + d)) < real_of_int (a + c)" and le: "b + d \<le> lmt"
    from inv le l1 have n: "1 \<le> b + d" "b + d \<le> 2 * lmt" by (simp_all add: exact_inv_def)
    from below [OF n fl] inv le show "exact_inv lmt x0 y0 (a, b) (a + c, b + d)"
      by (simp add: exact_inv_def algebra_simps)
  next
    fix a b c d
    assume inv: "exact_inv lmt x0 y0 (a, b) (c, d)"
      and fl: "real_of_int (a + c) < float_mul r (float_of_int (b + d))" and stop: "lmt < b + d"
    from inv have b1: "1 \<le> b" and d0: "0 \<le> d" and c1: "1 \<le> c"
      and det: "c * b - a * d = 1" and lo: "a * y0 \<le> x0 * b" and hi: "x0 * d \<le> c * y0"
      and n: "1 \<le> b + d" "b + d \<le> 2 * lmt"
      by (simp_all add: exact_inv_def)
    from above [OF n fl] have med: "(a + c) * y0 \<le> x0 * (b + d)" .
    have eq: "c * y0 = x0 * d"
    proof (rule ccontr)
      assume "c * y0 \<noteq> x0 * d"
      with hi have hi': "x0 * d < c * y0" by simp
      with med have lo': "a * y0 < x0 * b" by (simp add: algebra_simps)
      from farey_gap [OF det b1 d0 lo' hi'] yl stop show False by simp
    qed
    have d1: "1 \<le> d"
    proof (rule ccontr)
      assume "\<not> 1 \<le> d"
      with d0 have "d = 0" by simp
      with eq c1 y1 show False by simp
    qed
    from coprime_cross_eq [OF eq det_coprime(1) [OF det] cop d1 y1]
    show "(c, d) = (x0, y0)" by simp
  next
    fix a b c d
    assume inv: "exact_inv lmt x0 y0 (a, b) (c, d)"
      and fl: "float_mul r (float_of_int (b + d)) = real_of_int (a + c)"
    from inv have det: "c * b - a * d = 1"
      and n: "1 \<le> b + d" "b + d \<le> 2 * lmt"
      by (simp_all add: exact_inv_def)
    from equal [OF n fl] have "(a + c) * y0 = x0 * (b + d)" by simp
    from coprime_cross_eq [OF this det_coprime(3) [OF det] cop n(1) y1]
    show "(a + c, b + d) = (x0, y0)" by simp
  next
    fix a b c d
    assume inv: "exact_inv lmt x0 y0 (a, b) (c, d)"
      and fl: "float_mul r (float_of_int (b + d)) < real_of_int (a + c)" and stop: "lmt < b + d"
    from inv have b1: "1 \<le> b" and d0: "0 \<le> d" and c1: "1 \<le> c"
      and det: "c * b - a * d = 1" and lo: "a * y0 \<le> x0 * b" and hi: "x0 * d \<le> c * y0"
      and n: "1 \<le> b + d" "b + d \<le> 2 * lmt"
      by (simp_all add: exact_inv_def)
    from below [OF n fl] have med: "x0 * (b + d) \<le> (a + c) * y0" .
    have eq: "a * y0 = x0 * b"
    proof (rule ccontr)
      assume "a * y0 \<noteq> x0 * b"
      with lo have lo': "a * y0 < x0 * b" by simp
      with med have hi': "x0 * d < c * y0" by (simp add: algebra_simps)
      from farey_gap [OF det b1 d0 lo' hi'] yl stop show False by simp
    qed
    from coprime_cross_eq [OF eq det_coprime(2) [OF det] cop b1 y1]
    show "(a, b) = (x0, y0)" by simp
  qed
  then show ?thesis by (simp only: r_def)
qed

text \<open>
  Claim C4, as amended: for coprime integers \<open>x0 \<ge> 0\<close> and \<open>1 \<le> y0 \<le> limiter\<close> with
  \<open>(x0 + 1) * limiter \<le> 2 ^ 49\<close>, the division \<open>x0 / y0\<close> gives a float on which the
  search returns exactly the pair \<open>(x0, y0)\<close>.
\<close>

theorem apply_limiter_exact_match:
  assumes "coprime x0 y0" "1 \<le> y0" "y0 \<le> limiter self" "0 \<le> x0"
    and "(x0 + 1) * limiter self \<le> 2 ^ 49"
  shows "\<exists>r. int_truediv x0 y0 = Inr r \<and> apply_limiter self r = Some (x0, y0)"
proof -
  from assms(2,3) have l1: "1 \<le> limiter self" by simp
  have "x0 = x0 * 1" by simp
  also have "\<dots> \<le> (x0 + 1) * limiter self" using assms(4) l1 by (intro mult_mono) auto
  finally have xu: "x0 \<le> 2 ^ 49" using assms(5) by simp
  have "y0 \<le> 1 * limiter self" using assms(3) by simp
  also have "\<dots> \<le> (x0 + 1) * limiter self" using assms(4) l1 by (intro mult_right_mono) auto
  finally have yu: "y0 \<le> 2 ^ 49" using assms(5) by simp
  from truediv_value [OF assms(2,4) xu yu] farey_loop_exact_match [OF assms]
  show ?thesis by (simp add: apply_limiter_def)
qed

theorem apply_limiter_exact_match_witness:
  "coprime (16::int) 9 \<and> (1::int) \<le> 9 \<and> 9 \<le> limiter (sorter_with_limiter 10) \<and> (0::int) \<le> 16 \<and>
   (16 + 1) * limiter (sorter_with_limiter 10) \<le> 2 ^ 49 \<and>
   (\<exists>r. int_truediv 16 9 = Inr r \<and> apply_limiter (sorter_with_limiter 10) r = Some (16, 9))"
proof -
  have "(16::int) * 4 - 7 * 9 = 1" by simp
  then have c: "coprime (16::int) 9" by (rule det_coprime(1))
  have l: "9 \<le> limiter (sorter_with_limiter 10)" by (simp add: sorter_with_limiter_def)
  have b: "(16 + 1) * limiter (sorter_with_limiter 10) \<le> 2 ^ 49"
    by (simp add: sorter_with_limiter_def)
  from apply_limiter_exact_match [OF c _ l _ b] c l b show ?thesis by simp
qed

subsection \<open>A limiter of one\<close>

text \<open>
  Claim C5, that a limiter of one always gives \<open>(0, 1)\<close> or \<open>(1, 1)\<close>, fails: the limiter
  bounds the denominator only, and the ratio \<open>5\<close> gives \<open>(5, 1)\<close>.
\<close>

theorem apply_limiter_limiter_one_counterexample:
  "limiter (sorter_with_limiter 1) = 1 \<and>
   apply_limiter (sorter_with_limiter 1) 5 = Some (5, 1) \<and>
   (5 :: int, 1 :: int) \<noteq> (0, 1) \<and> (5 :: int, 1 :: int) \<noteq> (1, 1)"
  by (simp add: apply_limiter_def sorter_with_limiter_def farey_loop.simps float_eval)

text \<open>
  With a limiter of one the search multiplies the ratio by one and by two only, and
  both products of a float are exact.
\<close>

lemma limiter_one_exact:
  assumes "farey_inv 1 r (a, b) (c, d)" and "is_double r"
  shows "float_mul r (float_of_int (b + d)) = r * real_of_int (b + d)"
proof -
  from assms(1) have "b = 1" "d = 0 \<or> d = 1" by (auto simp add: farey_inv_def)
  then show ?thesis
    using float_mul_one [OF assms(2)] float_mul_two [OF assms(2)] by auto
qed

text \<open>
  Claim C5, as amended: with a limiter of one, every float \<open>r \<ge> 0\<close> whose fractional
  part is not one half is rounded to the nearest integer \<open>n\<close>, and the result is
  \<open>(n, 1)\<close>.
\<close>

theorem apply_limiter_limiter_one:
  assumes dbl: "is_double r" and r0: "0 \<le> r" and half: "frac r \<noteq> 1 / 2"
    and one: "limiter self = 1"
  shows "apply_limiter self r = Some (round r, 1)"
proof -
  have "\<exists>res. farey_loop 1 r (0, 1) (1, 0) = Some res \<and> res = (round r, 1)"
  proof (rule farey_loop_rule [where I = "farey_inv 1 r"])
    show "farey_inv 1 r (0, 1) (1, 0)" using r0 by (simp add: farey_inv_init)
  next
    fix a b c d assume "farey_inv 1 r (a, b) (c, d)"
    then show "1 \<le> b \<and> 0 \<le> d \<and> 1 \<le> c" by (simp add: farey_inv_def)
  next
    fix a b c d
    assume inv: "farey_inv 1 r (a, b) (c, d)"
      and "real_of_int (a + c) < float_mul r (float_of_int (b + d))" and le: "b + d \<le> 1"
    then have "real_of_int (a + c) < r * real_of_int (b + d)"
      by (simp only: limiter_one_exact [OF inv dbl])
    from farey_inv_up [OF inv this le] show "farey_inv 1 r (a + c, b + d) (c, d)" .
  next
    fix a b c d
    assume inv: "farey_inv 1 r (a, b) (c, d)"
      and "float_mul r (float_of_int (b + d)) < real_of_int (a + c)" and le: "b + d \<le> 1"
    then have "r * real_of_int (b + d) < real_of_int (a + c)"
      by (simp only: limiter_one_exact [OF inv dbl])
    from farey_inv_down [OF inv this le] show "farey_inv 1 r (a, b) (a + c, b + d)" .
  next
    fix a b c d
    assume inv: "farey_inv 1 r (a, b) (c, d)"
      and "real_of_int (a + c) < float_mul r (float_of_int (b + d))" and stop: "1 < b + d"
    then have above: "real_of_int (a + c) < r * real_of_int (b + d)"
      by (simp only: limiter_one_exact [OF inv dbl])
    from inv stop have "b = 1" "d = 1" by (simp_all add: farey_inv_def)
    with inv have c: "c = a + 1" and hi: "r < real_of_int c" by (simp_all add: farey_inv_def)
    from above \<open>b = 1\<close> \<open>d = 1\<close> c have "real_of_int c \<le> r + 1 / 2" by simp
    with hi have "round r = c" by (intro round_unique) simp_all
    with \<open>d = 1\<close> show "(c, d) = (round r, 1)" by simp
  next
    fix a b c d
    assume inv: "farey_inv 1 r (a, b) (c, d)"
      and "float_mul r (float_of_int (b + d)) = real_of_int (a + c)"
    then have exact: "r * real_of_int (b + d) = real_of_int (a + c)"
      by (simp only: limiter_one_exact [OF inv dbl])
    from inv have b: "b = 1" and d: "d = 0 \<or> d = 1" by (auto simp add: farey_inv_def)
    from d show "(a + c, b + d) = (round r, 1)"
    proof
      assume d0: "d = 0"
      with exact b have "r = real_of_int (a + c)" by simp
      then have "round r = a + c" by (simp only: round_of_int)
      with b d0 show ?thesis by simp
    next
      assume d1: "d = 1"
      with inv b have c: "c = a + 1" by (simp add: farey_inv_def)
      with exact b d1 have "r = real_of_int a + 1 / 2" by simp
      then have "frac r = 1 / 2" by (simp add: frac_unique_iff)
      with half show ?thesis by simp
    qed
  next
    fix a b c d
    assume inv: "farey_inv 1 r (a, b) (c, d)"
      and "float_mul r (float_of_int (b + d)) < real_of_int (a + c)" and stop: "1 < b + d"
    then have below: "r * real_of_int (b + d) < real_of_int (a + c)"
      by (simp only: limiter_one_exact [OF inv dbl])
    from inv stop have "b = 1" "d = 1" by (simp_all add: farey_inv_def)
    with inv have c: "c = a + 1" and lo: "real_of_int a \<le> r" by (simp_all add: farey_inv_def)
    from below \<open>b = 1\<close> \<open>d = 1\<close> c have "r - 1 / 2 < real_of_int a" by simp
    with lo have "round r = a" by (intro round_unique) simp_all
    with \<open>b = 1\<close> show "(a, b) = (round r, 1)" by simp
  qed
  with one show ?thesis by (simp add: apply_limiter_def)
qed

theorem apply_limiter_limiter_one_witness:
  "is_double (21 / 4) \<and> (0::real) \<le> 21 / 4 \<and> frac (21 / 4 :: real) \<noteq> 1 / 2 \<and>
   limiter (sorter_with_limiter 1) = 1 \<and>
   apply_limiter (sorter_with_limiter 1) (21 / 4) = Some (round (21 / 4 :: real), 1)"
proof -
  have d: "is_double (21 / 4)" by (simp add: is_double_def float_eval)
  have f: "frac (21 / 4 :: real) = 1 / 4" unfolding frac_unique_iff by simp
  have h: "frac (21 / 4 :: real) \<noteq> 1 / 2" unfolding f by simp
  have l: "limiter (sorter_with_limiter 1) = 1" by (simp add: sorter_with_limiter_def)
  from apply_limiter_limiter_one [OF d _ h l] d h l show ?thesis by simp
qed

subsection \<open>The sentinel\<close>

text \<open>
  Claim C6, that the sentinel \<open>(1, 0)\<close> is never returned, fails for a limiter below
  one: the first mediant \<open>(1, 1)\<close> already exceeds the limiter, and a ratio above one
  makes the search return its upper bound, which is still the sentinel.
\<close>

theorem apply_limiter_sentinel_counterexample:
  "limiter (sorter_with_limiter 0) = 0 \<and>
   apply_limiter (sorter_with_limiter 0) 2 = Some (1, 0)"
  by (simp add: apply_limiter_def sorter_with_limiter_def farey_loop.simps float_eval)

lemma farey_loop_denominator:
  assumes "1 \<le> lmt"
  shows "\<exists>res. farey_loop lmt r (0, 1) (1, 0) = Some res \<and> 1 \<le> snd res"
proof (rule farey_loop_rule
    [where I = "\<lambda>lower upper. 0 \<le> fst lower \<and> 1 \<le> snd lower \<and> snd lower \<le> lmt \<and>
                  0 \<le> snd upper \<and> 1 \<le> fst upper"])
  show "0 \<le> fst (0::int, 1::int) \<and> 1 \<le> snd (0::int, 1::int) \<and> snd (0::int, 1::int) \<le> lmt \<and>
      0 \<le> snd (1::int, 0::int) \<and> 1 \<le> fst (1::int, 0::int)"
    using assms by simp
qed auto

text \<open>
  Claim C6, as amended: for every float \<open>r \<ge> 0\<close> the search returns a pair. With a
  limiter of at least one its denominator is at least one, so it is never the
  sentinel. With a limiter below one the result is \<open>(0, 1)\<close> for \<open>r < 1\<close>, \<open>(1, 1)\<close> for
  \<open>r = 1\<close> and the sentinel \<open>(1, 0)\<close> for \<open>r > 1\<close>.
\<close>

theorem apply_limiter_denominator:
  assumes "is_double r" and "0 \<le> r"
  shows "\<exists>x y. apply_limiter self r = Some (x, y) \<and>
     (if 1 \<le> limiter self then 1 \<le> y
      else (x, y) = (if 1 < r then (1, 0) else if r = 1 then (1, 1) else (0, 1)))"
proof (cases "1 \<le> limiter self")
  case True
  from farey_loop_denominator [OF True] obtain res
    where "farey_loop (limiter self) r (0, 1) (1, 0) = Some res" and "1 \<le> snd res" by blast
  with True show ?thesis
    by (cases res) (simp add: apply_limiter_def)
next
  case False
  have one: "float_mul r (float_of_int 1) = r" by (rule float_mul_one [OF assms(1)])
  from False have "farey_loop (limiter self) r (0, 1) (1, 0) =
      Some (if 1 < r then (1, 0) else if r = 1 then (1, 1) else (0, 1))"
    by (subst farey_loop.simps) (simp add: Let_def one)
  with False show ?thesis by (simp add: apply_limiter_def)
qed

theorem apply_limiter_denominator_witness:
  "is_double 2 \<and> (0::real) \<le> 2 \<and>
   (\<exists>x y. apply_limiter (sorter_with_limiter 0) 2 = Some (x, y) \<and>
     (if 1 \<le> limiter (sorter_with_limiter 0) then 1 \<le> y
      else (x, y) = (if 1 < (2::real) then (1, 0) else if (2::real) = 1 then (1, 1) else (0, 1))))"
proof -
  have d: "is_double 2" by (simp add: is_double_def float_eval)
  from apply_limiter_denominator [OF d, of "sorter_with_limiter 0"] d show ?thesis by simp
qed

section \<open>Properties of the output path allocator\<close>

lemma digit_char_inj: "digit_char a = digit_char b \<Longrightarrow> a mod 10 = b mod 10"
proof -
  assume eq: "digit_char a = digit_char b"
  have d: "distinct ''0123456789''" by simp
  have "a mod 10 < length ''0123456789''" "b mod 10 < length ''0123456789''" by simp_all
  from nth_eq_iff_index_eq [OF d this] eq show ?thesis by (simp only: digit_char_def)
qed

lemma str_nat_not_Nil: "str_nat n \<noteq> []"
  by (subst str_nat.simps) simp

lemma str_nat_inj: "str_nat n = str_nat m \<Longrightarrow> n = m"
proof (induction n arbitrary: m rule: str_nat.induct)
  case (1 n)
  show ?case
  proof (cases "n < 10")
    case n: True
    show ?thesis
    proof (cases "m < 10")
      case True
      from "1.prems" n True have "digit_char n = digit_char m"
        by (simp add: str_nat.simps [of n] str_nat.simps [of m])
      from digit_char_inj [OF this] n True show ?thesis by simp
    next
      case False
      from "1.prems" n False have "[digit_char n] = str_nat (m div 10) @ [digit_char m]"
        by (simp add: str_nat.simps [of n] str_nat.simps [of m])
      then have "str_nat (m div 10) = []" by simp
      with str_nat_not_Nil show ?thesis by blast
    qed
  next
    case n: False
    show ?thesis
    proof (cases "m < 10")
      case True
      from "1.prems" n True have "str_nat (n div 10) @ [digit_char n] = [digit_char m]"
        by (simp add: str_nat.simps [of n] str_nat.simps [of m])
      then have "str_nat (n div 10) = []" by simp
      with str_nat_not_Nil show ?thesis by blast
    next
      case False
      from "1.prems" n False
      have "str_nat (n div 10) @ [digit_char n] = str_nat (m div 10) @ [digit_char m]"
        by (simp add: str_nat.simps [of n] str_nat.simps [of m])
      then have hi: "str_nat (n div 10) = str_nat (m div 10)"
        and lo: "digit_char n = digit_char m" by simp_all
      from "1.IH" [OF n hi] have "n div 10 = m div 10" .
      moreover from digit_char_inj [OF lo] have "n mod 10 = m mod 10" .
      ultimately show ?thesis by (metis div_mult_mod_eq)
    qed
  qed
qed

lemma numbered_candidate_inj:
  "numbered_candidate self a = numbered_candidate self b \<Longrightarrow> a = b"
  by (simp add: numbered_candidate_def path_join_def str_nat_inj)

lemma free_candidate_exists:
  assumes "finite existing"
  shows "\<exists>k\<ge>c. numbered_candidate self k \<notin> existing"
proof (rule ccontr)
  assume "\<not> (\<exists>k\<ge>c. numbered_candidate self k \<notin> existing)"
  then have "numbered_candidate self ` {c..} \<subseteq> existing" by auto
  with assms have "finite (numbered_candidate self ` {c..})" by (rule finite_subset [rotated])
  moreover have "inj_on (numbered_candidate self) {c..}"
    by (rule inj_onI) (rule numbered_candidate_inj)
  ultimately have "finite {c..}" by (rule finite_imageD)
  then show False by (simp add: infinite_Ici)
qed

lemma unique_path_loop_upto:
  assumes "numbered_candidate self k \<notin> existing" "c \<le> k"
  shows "\<exists>n. c \<le> n \<and> n \<le> k \<and>
     unique_path_loop existing self c = Some (numbered_candidate self n) \<and>
     numbered_candidate self n \<notin> existing \<and>
     (\<forall>j. c \<le> j \<and> j < n \<longrightarrow> numbered_candidate self j \<in> existing)"
  using assms
proof (induction "k - c" arbitrary: c)
  case 0
  then have "c = k" by simp
  with "0.prems" have "unique_path_loop existing self c = Some (numbered_candidate self c)"
    by (subst unique_path_loop.simps) (simp add: Let_def)
  with "0.prems" \<open>c = k\<close> show ?case by auto
next
  case (Suc d)
  show ?case
  proof (cases "numbered_candidate self c \<in> existing")
    case False
    then have "unique_path_loop existing self c = Some (numbered_candidate self c)"
      by (subst unique_path_loop.simps) (simp add: Let_def)
    with False Suc.prems show ?thesis by auto
  next
    case True
    from Suc.hyps(2) Suc.prems have "d = k - (c + 1)" "c + 1 \<le> k" by simp_all
    from Suc.hyps(1) [OF this(1) Suc.prems(1) this(2)] obtain n
      where n: "c + 1 \<le> n" "n \<le> k"
        "unique_path_loop existing self (c + 1) = Some (numbered_candidate self n)"
        "numbered_candidate self n \<notin> existing"
        "\<forall>j. c + 1 \<le> j \<and> j < n \<longrightarrow> numbered_candidate self j \<in> existing"
      by blast
    from True n(3) have "unique_path_loop existing self c = Some (numbered_candidate self n)"
      by (subst unique_path_loop.simps) (simp add: Let_def)
    moreover have "\<forall>j. c \<le> j \<and> j < n \<longrightarrow> numbered_candidate self j \<in> existing"
    proof (intro allI impI)
      fix j assume "c \<le> j \<and> j < n"
      then have "j = c \<or> (c + 1 \<le> j \<and> j < n)" by auto
      with True n(5) show "numbered_candidate self j \<in> existing" by auto
    qed
    moreover from n(1) have "c \<le> n" by simp
    ultimately show ?thesis using n(2,4) by blast
  qed
qed

lemma unique_path_loop_least:
  assumes "finite existing"
  shows "\<exists>n\<ge>c. unique_path_loop existing self c = Some (numbered_candidate self n) \<and>
     numbered_candidate self n \<notin> existing \<and>
     (\<forall>j. c \<le> j \<and> j < n \<longrightarrow> numbered_candidate self j \<in> existing)"
proof -
  from free_candidate_exists [OF assms] obtain k
    where "c \<le> k" "numbered_candidate self k \<notin> existing" by blast
  from unique_path_loop_upto [OF this(2,1)] show ?thesis by blast
qed

text \<open>
  Claim C8, that two successive calls against the same state of the file system give
  two distinct paths, fails: the allocator only reads the file system, so against the
  same state it gives the same path twice. It creates nothing; \<^verbatim>\<open>run\<close> creates the
  directory later.
\<close>

theorem generate_unique_path_same_state_counterexample:
  "[''media_sorted_L10''] \<in> {[''media_sorted_L10'']} \<and>
   generate_unique_path {[''media_sorted_L10'']} (sorter_with_limiter 10) =
     Some [''media_sorted_L10 (1)''] \<and>
   generate_unique_path {[''media_sorted_L10'']} (sorter_with_limiter 10) =
     generate_unique_path {[''media_sorted_L10'']} (sorter_with_limiter 10)"
  by (simp add: generate_unique_path_def unique_path_loop.simps numbered_candidate_def
      base_name_def sorter_with_limiter_def path_join_def path_parent_def path_name_def
      str_int_def str_nat.simps digit_char_def Let_def)

text \<open>
  Claim C8, as amended: when the base name exists already, a call returns the numbered
  path with the least suffix \<open>n \<ge> 1\<close> that is free: every smaller suffix from one on is
  taken. A second call made after that path has come into existence returns the
  numbered path with the least suffix \<open>m\<close> free then, and \<open>m > n\<close>. Neither call returns
  a path that exists at the time of the call.
\<close>

theorem generate_unique_path_successive:
  assumes fin: "finite existing"
    and taken: "path_join (path_parent (target_path self)) (base_name self) \<in> existing"
  shows "\<exists>n m. 1 \<le> n \<and> n < m \<and>
     generate_unique_path existing self = Some (numbered_candidate self n) \<and>
     numbered_candidate self n \<notin> existing \<and>
     (\<forall>j. 1 \<le> j \<and> j < n \<longrightarrow> numbered_candidate self j \<in> existing) \<and>
     generate_unique_path (insert (numbered_candidate self n) existing) self =
       Some (numbered_candidate self m) \<and>
     numbered_candidate self m \<notin> insert (numbered_candidate self n) existing \<and>
     (\<forall>j. 1 \<le> j \<and> j < m \<longrightarrow>
        numbered_candidate self j \<in> insert (numbered_candidate self n) existing)"
proof -
  from unique_path_loop_least [OF fin, of 1 self] obtain n
    where n: "1 \<le> n" "unique_path_loop existing self 1 = Some (numbered_candidate self n)"
      "numbered_candidate self n \<notin> existing"
      "\<forall>j. 1 \<le> j \<and> j < n \<longrightarrow> numbered_candidate self j \<in> existing"
    by blast
  let ?later = "insert (numbered_candidate self n) existing"
  from fin have "finite ?later" by simp
  from unique_path_loop_least [OF this, of 1 self] obtain m
    where m: "1 \<le> m" "unique_path_loop ?later self 1 = Some (numbered_candidate self m)"
      "numbered_candidate self m \<notin> ?later"
      "\<forall>j. 1 \<le> j \<and> j < m \<longrightarrow> numbered_candidate self j \<in> ?later"
    by blast
  have "n < m"
  proof (rule ccontr)
    assume "\<not> n < m"
    then have "m = n \<or> m < n" by auto
    with n(4) m(1,3) show False by auto
  qed
  moreover from taken n(2) have "generate_unique_path existing self = Some (numbered_candidate self n)"
    by (simp add: generate_unique_path_def Let_def)
  moreover from taken m(2) have "generate_unique_path ?later self = Some (numbered_candidate self m)"
    by (simp add: generate_unique_path_def Let_def)
  ultimately show ?thesis using n(1,3,4) m(3,4) by blast
qed

theorem generate_unique_path_successive_witness:
  "finite {[''media_sorted_L10'']} \<and>
   path_join (path_parent (target_path (sorter_with_limiter 10)))
     (base_name (sorter_with_limiter 10)) \<in> {[''media_sorted_L10'']} \<and>
   (\<exists>n m. 1 \<le> n \<and> n < m \<and>
     generate_unique_path {[''media_sorted_L10'']} (sorter_with_limiter 10) =
       Some (numbered_candidate (sorter_with_limiter 10) n) \<and>
     numbered_candidate (sorter_with_limiter 10) n \<notin> {[''media_sorted_L10'']} \<and>
     (\<forall>j. 1 \<le> j \<and> j < n \<longrightarrow>
        numbered_candidate (sorter_with_limiter 10) j \<in> {[''media_sorted_L10'']}) \<and>
     generate_unique_path
       (insert (numbered_candidate (sorter_with_limiter 10) n) {[''media_sorted_L10'']})
       (sorter_with_limiter 10) = Some (numbered_candidate (sorter_with_limiter 10) m) \<and>
     numbered_candidate (sorter_with_limiter 10) m \<notin>
       insert (numbered_candidate (sorter_with_limiter 10) n) {[''media_sorted_L10'']} \<and>
     (\<forall>j. 1 \<le> j \<and> j < m \<longrightarrow>
        numbered_candidate (sorter_with_limiter 10) j \<in>
          insert (numbered_candidate (sorter_with_limiter 10) n) {[''media_sorted_L10'']}))"
proof -
  have f: "finite {[''media_sorted_L10'']}" by simp
  have t: "path_join (path_parent (target_path (sorter_with_limiter 10)))
     (base_name (sorter_with_limiter 10)) \<in> {[''media_sorted_L10'']}"
    by (simp add: base_name_def sorter_with_limiter_def path_join_def path_parent_def
        path_name_def str_int_def str_nat.simps digit_char_def)
  from generate_unique_path_successive [OF f t] f t show ?thesis by blast
qed

section \<open>Properties of the dimension probe\<close>







section \<open>Properties of the sort run\<close>

lemma try_block_returns: "\<exists>out. try_block os s file = Some out"
proof -
  have total: "\<exists>res. apply_limiter (sorter s) r = Some res" for r
    using farey_loop_returns [of "limiter (sorter s)" r] by (simp add: apply_limiter_def)
  show ?thesis
  proof (cases "get_dimensions (media os (fs s)) file")
    case (Inl e)
    then show ?thesis by (simp add: try_block_def)
  next
    case (Inr dims)
    obtain width height where dims: "dims = (width, height)" by (cases dims)
    show ?thesis
    proof (cases "int_truediv width height")
      case (Inl e)
      with Inr dims show ?thesis by (simp add: try_block_def)
    next
      case ratio: (Inr ratio)
      from total obtain x y where "apply_limiter (sorter s) ratio = Some (x, y)"
        by (metis surj_pair)
      with Inr dims ratio show ?thesis
        by (simp add: try_block_def Let_def split: prod.splits option.splits sum.splits)
    qed
  qed
qed

lemma try_block_raises:
  assumes "try_block os s file = Some (Some e, s1)"
  shows "sorter s1 = sorter s \<and> logged s1 = logged s \<and> printed s1 = printed s"
  using assms
  by (auto simp add: try_block_def Let_def
      split: sum.splits prod.splits option.splits if_splits)


lemma process_file_returns: "\<exists>s'. process_file os s file = Some s'"
proof -
  from try_block_returns obtain out where "try_block os s file = Some out" by blast
  then show ?thesis
    by (cases out) (auto simp add: process_file_def split: option.splits)
qed

lemma sort_files_returns: "\<exists>final. sort_files os s files = Some final"
proof (induction files arbitrary: s)
  case Nil
  show ?case by simp
next
  case (Cons entry rest)
  from process_file_returns obtain s' where "process_file os s entry = Some s'" by blast
  with Cons.IH [of s] Cons.IH [of s'] show ?case by simp
qed

text \<open>
  Claim C7: when the \<^verbatim>\<open>try\<close> block for a file is left by an exception, at whatever
  step, the handler logs the file as skipped, the per-ratio counts and the byte total
  are what they were before the file, and the loop goes on with the remaining files
  and completes.
\<close>

theorem run_skips_failed_file:
  assumes raised: "try_block os s file = Some (Some e, s1)"
    and valid: "str_lower (path_suffix file) \<in> set valid_extensions"
  shows "\<exists>s'. process_file os s file = Some s' \<and>
     stats (sorter s') = stats (sorter s) \<and>
     total_size_bytes (sorter s') = total_size_bytes (sorter s) \<and>
     logged s' = logged s @ [Error (''Skipping '' @ path_name file @ '': '' @ message e)] \<and>
     sort_files os s (file # files) = sort_files os s' files \<and>
     (\<exists>final. sort_files os s' files = Some final)"
proof -
  let ?s' = "s1\<lparr>logged := logged s1 @
      [Error (''Skipping '' @ path_name file @ '': '' @ message e)]\<rparr>"
  from raised have p: "process_file os s file = Some ?s'"
    by (simp add: process_file_def)
  from try_block_raises [OF raised]
  have keep: "sorter s1 = sorter s" "logged s1 = logged s" by simp_all
  from p valid have "sort_files os s (file # files) = sort_files os ?s' files" by simp
  moreover from sort_files_returns obtain final
    where "sort_files os ?s' files = Some final" by blast
  ultimately show ?thesis using p keep by simp
qed

theorem run_skips_failed_file_witness:
  "try_block example_platform example_session [''media'', ''broken.jpg''] =
     Some (Some unsupported_format, example_session) \<and>
   str_lower (path_suffix [''media'', ''broken.jpg'']) \<in> set valid_extensions \<and>
   (\<exists>s'. process_file example_platform example_session [''media'', ''broken.jpg''] = Some s' \<and>
     stats (sorter s') = stats (sorter example_session) \<and>
     total_size_bytes (sorter s') = total_size_bytes (sorter example_session) \<and>
     logged s' = logged example_session @
       [Error (''Skipping '' @ path_name [''media'', ''broken.jpg''] @ '': '' @
          message unsupported_format)] \<and>
     sort_files example_platform example_session
         ([''media'', ''broken.jpg''] # [[''media'', ''a.jpg'']]) =
       sort_files example_platform s' [[''media'', ''a.jpg'']] \<and>
     (\<exists>final. sort_files example_platform s' [[''media'', ''a.jpg'']] = Some final))"
proof -
  have sfx: "str_lower (path_suffix [''media'', ''broken.jpg'']) = ''.jpg''"
    by (simp add: path_suffix_def path_name_def str_lower_def lower_char_def Let_def)
  have r: "try_block example_platform example_session [''media'', ''broken.jpg''] =
     Some (Some unsupported_format, example_session)"
    by (simp add: try_block_def get_dimensions_def metadata_dimensions_def sfx
        image_suffixes_def example_platform_def example_libs_def path_name_def)
  have v: "str_lower (path_suffix [''media'', ''broken.jpg'']) \<in> set valid_extensions"
    by (simp add: sfx valid_extensions_def)
  from run_skips_failed_file [OF r v, of "[[''media'', ''a.jpg'']]"] r v
  show ?thesis by blast
qed

section \<open>Properties of the summary\<close>













lemma sorted_entry_Sorted: "sorted_entry (Info (''Sorted: '' @ m))"
  by simp










end
